theory Spec2Isabelle
  imports Main "HOL-Library.Sublist"
begin

section \<open>JavaScript strings and the regular expressions of \<open>lib/run.js\<close>\<close>

text \<open>
  A JavaScript string is modelled as a \<^typ>\<open>string\<close>: a list of code units below 256.
  \<open>String.prototype.trim\<close> removes white space and line terminators from both ends; of
  the code units below 256 these are TAB, LF, VT, FF, CR, SP and NBSP.
\<close>

definition is_space :: "char \<Rightarrow> bool" where
  "is_space c = (c \<in> set [CHR 0x09, CHR 0x0A, CHR 0x0B, CHR 0x0C, CHR 0x0D, CHR 0x20, CHR 0xA0])"

definition trim :: "string \<Rightarrow> string" where
  "trim s = rev (dropWhile is_space (rev (dropWhile is_space s)))"

text \<open>
  The regular expressions of the file are sequences of single characters, \<open>\d+\<close> and
  \<open>.+\<close>. \<open>\d\<close> is an ASCII digit; \<open>.\<close> is any code unit except the line terminators
  LF and CR.
\<close>

datatype atom = Chr char | Digit | Dot

definition is_digit :: "char \<Rightarrow> bool" where
  "is_digit c = (c \<in> set ''0123456789'')"

fun accepts :: "atom \<Rightarrow> char \<Rightarrow> bool" where
  "accepts (Chr a) c = (c = a)"
| "accepts Digit c = is_digit c"
| "accepts Dot c = (c \<noteq> CHR 0x0A \<and> c \<noteq> CHR 0x0D)"

datatype item = One atom | Plus atom

type_synonym regex = "item list"

definition lit :: "string \<Rightarrow> regex" where
  "lit s = map (\<lambda>c. One (Chr c)) s"

text \<open>
  \<open>exec_at r s\<close> is the backtracking matcher anchored at the start of \<open>s\<close>: the length
  of the match the engine finds, if any. A quantifier \<open>+\<close> is greedy: it first tries to
  take one more character, and gives characters back only when the rest of the pattern
  fails.
\<close>

fun exec_at :: "regex \<Rightarrow> string \<Rightarrow> nat option" where
  "exec_at [] s = Some 0"
| "exec_at (One a # r) [] = None"
| "exec_at (One a # r) (c # cs) =
     (if accepts a c then map_option Suc (exec_at r cs) else None)"
| "exec_at (Plus a # r) [] = None"
| "exec_at (Plus a # r) (c # cs) =
     (if accepts a c
      then (case exec_at (Plus a # r) cs of
              Some n \<Rightarrow> Some (Suc n)
            | None \<Rightarrow> map_option Suc (exec_at r cs))
      else None)"

text \<open>
  \<open>String.prototype.match\<close> with a global (\<open>/g\<close>) pattern: all matches from left to
  right, each search starting where the previous match ended (one character further
  after an empty match). JavaScript returns \<open>null\<close> where this list is empty.
\<close>

function match_all :: "regex \<Rightarrow> string \<Rightarrow> string list" where
  "match_all r [] = (case exec_at r [] of None \<Rightarrow> [] | Some n \<Rightarrow> [[]])"
| "match_all r (c # cs) =
     (case exec_at r (c # cs) of
        None \<Rightarrow> match_all r cs
      | Some n \<Rightarrow>
          take n (c # cs) #
            (if n = 0 then match_all r cs else match_all r (drop n (c # cs))))"
  by pat_completeness auto
termination
  by (relation "measure (\<lambda>(r, s). length s)") auto

text \<open>\<open>RegExp.prototype.test\<close> on a fresh pattern: is there a match at some position?\<close>

fun test :: "regex \<Rightarrow> string \<Rightarrow> bool" where
  "test r [] = (exec_at r [] \<noteq> None)"
| "test r (c # cs) = (exec_at r (c # cs) \<noteq> None \<or> test r cs)"

text \<open>\<open>Array.prototype.join\<close>, and the string a match result converts to.\<close>

fun join :: "string \<Rightarrow> string list \<Rightarrow> string" where
  "join sep [] = []"
| "join sep [x] = x"
| "join sep (x # y # ys) = x @ sep @ join sep (y # ys)"

definition match_to_string :: "string list \<Rightarrow> string" where
  "match_to_string ms = (if ms = [] then ''null'' else join '','' ms)"

section \<open>The emulator readiness watch of \<open>Helper.launchGeny\<close>\<close>

text \<open>
  The time stamp pattern (line 506), the boot line pattern (line 498), which is the time
  stamp pattern followed by the rest of the line, and the pattern of line 515.
\<close>

definition tsRe :: regex where
  "tsRe = [Plus Digit, One (Chr CHR ''-''), Plus Digit, One (Chr CHR ''-''), Plus Digit,
           One (Chr CHR ''T''), Plus Digit, One (Chr CHR '':''), Plus Digit,
           One (Chr CHR '':''), Plus Digit, One (Chr CHR ''+''), Plus Digit,
           One (Chr CHR '':''), Plus Digit]"

definition tailRe :: regex where
  "tailRe = lit '' [Genymotion Player:'' @ [Plus Digit] @
            lit ''] [debug] Device booted in '' @ [Plus Digit] @ lit '' ms''"

definition bootRe :: regex where
  "bootRe = tsRe @ tailRe"

definition bootedInRe :: regex where
  "bootedInRe = lit ''Device booted in '' @ [Plus Dot]"

text \<open>
  The state of the watch: whether \<open>fs.watchFile\<close> is still subscribed, and whether the
  promise has been resolved.
\<close>

record watch =
  watching :: bool
  resolved :: bool

text \<open>
  The \<open>'data'\<close> callback (lines 493 to 521), run on one text \<open>output\<close> that the read
  stream delivers. \<open>Date.parse\<close> and \<open>Date.now\<close> belong to the host: \<open>date_parse\<close> gives the
  milliseconds of a date string, or \<open>None\<close> for \<open>NaN\<close>, and \<open>now\<close> is the current time in
  milliseconds. A comparison with \<open>NaN\<close> is false.
\<close>

definition onData :: "(string \<Rightarrow> int option) \<Rightarrow> int \<Rightarrow> string \<Rightarrow> watch \<Rightarrow> watch" where
  "onData date_parse now output w =
     (let matches = match_all bootRe (trim output) in
      if matches \<noteq> [] then
        (let lastLine = last matches;
             dateTime = match_all tsRe lastLine;
             logTime = date_parse (match_to_string dateTime);
             deltaTime = map_option (\<lambda>t. now - t) logTime
         in if (case deltaTime of None \<Rightarrow> False | Some d \<Rightarrow> d \<le> 10000) \<and>
               test bootedInRe lastLine
            then w\<lparr>watching := False, resolved := True\<rparr>
            else w)
      else w)"

text \<open>
  The listener of \<open>fs.watchFile\<close> (lines 490 to 522), run on the content of the log at
  a change. The log is read through \<open>fs.createReadStream\<close>, which delivers it in chunks
  of at most \<open>highWaterMark\<close> bytes, 64 KiB by default for a file stream, and the
  callback runs on each chunk in turn; an empty file gives no \<open>'data'\<close> event. The log
  is a text of one-byte characters, so a chunk holds 65536 characters. \<open>clock k\<close> is
  \<open>Date.now()\<close> at the \<open>k\<close>-th \<open>'data'\<close> event. After the watch has resolved, the
  remaining chunks of the stream are still delivered.
\<close>

definition highWaterMark :: nat where
  "highWaterMark = 65536"

function chunks :: "nat \<Rightarrow> string \<Rightarrow> string list" where
  "chunks n s = (if n = 0 \<or> s = [] then [] else take n s # chunks n (drop n s))"
  by pat_completeness auto
termination
  by (relation "measure (\<lambda>(n, s). length s)") auto

fun deliver ::
  "(string \<Rightarrow> int option) \<Rightarrow> (nat \<Rightarrow> int) \<Rightarrow> nat \<Rightarrow> string list \<Rightarrow> watch \<Rightarrow> watch" where
  "deliver date_parse clock k [] w = w"
| "deliver date_parse clock k (output # rest) w =
     deliver date_parse clock (Suc k) rest (onData date_parse (clock k) output w)"

definition onChange ::
  "(string \<Rightarrow> int option) \<Rightarrow> (nat \<Rightarrow> int) \<Rightarrow> string \<Rightarrow> watch \<Rightarrow> watch" where
  "onChange date_parse clock content w =
     deliver date_parse clock 0 (chunks highWaterMark content) w"

text \<open>
  What the claims say about a boot line, in the words of the specification: its embedded
  time stamp is the text before the first blank, and the line is fresh when that time
  stamp parses to a time at most 10000 ms before \<open>now\<close> and the line matches the
  pattern of line 515. A boot line is a string the boot line pattern matches from its
  first to its last character.
\<close>

definition timestamp_of :: "string \<Rightarrow> string" where
  "timestamp_of l = takeWhile (\<lambda>c. c \<noteq> CHR '' '') l"

definition fresh_boot_line :: "(string \<Rightarrow> int option) \<Rightarrow> int \<Rightarrow> string \<Rightarrow> bool" where
  "fresh_boot_line date_parse now l =
     ((case date_parse (timestamp_of l) of None \<Rightarrow> False | Some t \<Rightarrow> now - t \<le> 10000) \<and>
      test bootedInRe l)"

definition is_boot_line :: "string \<Rightarrow> bool" where
  "is_boot_line l = (exec_at bootRe l = Some (length l))"

text \<open>
  Two lines of a player log and a \<open>Date.parse\<close> that knows their time stamps
  (2019-10-01T10:00:00Z is 1569924000000 ms), for the concrete runs below.
\<close>

definition boot_line_0 :: string where
  "boot_line_0 =
     ''2019-10-01T10:00:00+00:00 [Genymotion Player:1234] [debug] Device booted in 25343 ms''"

definition boot_line_27 :: string where
  "boot_line_27 =
     ''2019-10-01T10:00:27+00:00 [Genymotion Player:1301] [debug] Device booted in 24110 ms''"

definition example_date_parse :: "string \<Rightarrow> int option" where
  "example_date_parse s =
     (if s = ''2019-10-01T10:00:00+00:00'' then Some 1569924000000
      else if s = ''2019-10-01T10:00:27+00:00'' then Some 1569924027000
      else None)"

text \<open>
  Two logs longer than one chunk, each of 84 characters a boot line. In the first the
  later boot line is the last line, and the boundary of the chunks falls after its 40th
  character; \<open>cut_head\<close> and \<open>cut_tail\<close> are the two chunks. In the second the line
  with the later time stamp stands first and fills, with the lines that follow it, exactly
  the first chunk; \<open>reversed_head\<close> and \<open>reversed_tail\<close> are the two chunks.
\<close>

definition cut_log :: string where
  "cut_log = boot_line_0 @ [CHR 0x0A] @ replicate 65410 (CHR ''x'') @ [CHR 0x0A] @ boot_line_27"

definition cut_head :: string where
  "cut_head = boot_line_0 @ [CHR 0x0A] @ replicate 65410 (CHR ''x'') @ [CHR 0x0A] @
              ''2019-10-01T10:00:27+00:00 [Genymotion Pl''"

definition cut_tail :: string where
  "cut_tail = ''ayer:1301] [debug] Device booted in 24110 ms''"

definition reversed_log :: string where
  "reversed_log =
     boot_line_27 @ [CHR 0x0A] @ replicate 65451 (CHR ''x'') @ [CHR 0x0A] @ boot_line_0"

definition reversed_head :: string where
  "reversed_head = boot_line_27 @ [CHR 0x0A] @ replicate 65451 (CHR ''x'')"

definition reversed_tail :: string where
  "reversed_tail = CHR 0x0A # boot_line_0"

text \<open>
  The words a pattern derives, independent of the matcher's search order, and the
  patterns on which the greedy search needs no backtracking: no \<open>+\<close> is followed by an
  item that accepts one of its own characters. \<open>stops r v\<close> says that the text \<open>v\<close>
  after a match does not extend a trailing \<open>+\<close>.
\<close>

fun atom_of :: "item \<Rightarrow> atom" where
  "atom_of (One a) = a"
| "atom_of (Plus a) = a"

fun derives :: "regex \<Rightarrow> string \<Rightarrow> bool" where
  "derives [] s = (s = [])"
| "derives (One a # r) s = (\<exists>c t. s = c # t \<and> accepts a c \<and> derives r t)"
| "derives (Plus a # r) s =
     (\<exists>u t. u \<noteq> [] \<and> (\<forall>c\<in>set u. accepts a c) \<and> s = u @ t \<and> derives r t)"

fun det :: "regex \<Rightarrow> bool" where
  "det [] = True"
| "det [i] = True"
| "det (One a # i # r) = det (i # r)"
| "det (Plus a # i # r) = ((\<forall>c. \<not> (accepts a c \<and> accepts (atom_of i) c)) \<and> det (i # r))"

fun stops :: "regex \<Rightarrow> string \<Rightarrow> bool" where
  "stops r [] = True"
| "stops [] (c # v) = True"
| "stops (i # r) (c # v) = (case last (i # r) of One a \<Rightarrow> True | Plus a \<Rightarrow> \<not> accepts a c)"

section \<open>The host and the configuration\<close>

text \<open>
  \<open>String.prototype.slice\<close> (a negative index counts from the end, both indices are
  clamped to the string) and \<open>String.prototype.split\<close> on a separator of one character,
  which gives one piece more than there are separators: \<open>''.split(',')\<close> is \<open>['']\<close>.
\<close>

definition js_slice :: "string \<Rightarrow> int \<Rightarrow> int \<Rightarrow> string" where
  "js_slice s b e =
     (let n = int (length s);
          from = (if b < 0 then max (n + b) 0 else min b n);
          to = (if e < 0 then max (n + e) 0 else min e n)
      in take (nat (to - from)) (drop (nat from) s))"

fun js_split :: "char \<Rightarrow> string \<Rightarrow> string list" where
  "js_split d [] = [[]]"
| "js_split d (c # cs) =
     (if c = d then [] # js_split d cs
      else (case js_split d cs of [] \<Rightarrow> [[c]] | x # xs \<Rightarrow> (c # x) # xs))"

text \<open>
  What the functions take from Node and from the machine: the operating system, the
  directory of the module, \<open>path.join\<close>, whether \<open>fs.statSync\<close> finds a path, the error
  (if any) that rewriting a given \<open>tiapp.xml\<close> throws (the file is missing, or holds no
  \<open>sdk-version\<close> element), and, for the \<open>k\<close>-th process the build pipeline spawns, whether
  it exits and with which code.
\<close>

datatype js_error = TypeError | ProcessExit nat | IOError

datatype proc_end = Exits int | NeverExits

record host =
  win32 :: bool
  dirname :: string
  path_join :: "string list \<Rightarrow> string"
  stat_ok :: "string \<Rightarrow> bool"
  change_error :: "string \<Rightarrow> js_error option"
  proc_end :: "nat \<Rightarrow> proc_end"

definition sep :: "host \<Rightarrow> char" where
  "sep h = (if win32 h then CHR 0x5C else CHR ''/'')"

definition TEST_DIR :: string where
  "TEST_DIR = ''ui-tests''"

definition getAbsolutePath :: "host \<Rightarrow> string \<Rightarrow> string \<Rightarrow> string" where
  "getAbsolutePath h app file = path_join h [dirname h, ''..'', TEST_DIR, app, file]"

definition spawnConvert :: "host \<Rightarrow> string \<Rightarrow> string list \<Rightarrow> string \<times> string list" where
  "spawnConvert h cmd flags =
     (if win32 h then (''cmd.exe'', ''/c'' # cmd # flags) else (cmd, flags))"

text \<open>
  The configuration module \<open>ui-tests/<app>/config\<close> is not part of the sources; it is
  given as a parameter, with the shape the functions read: for each platform, in the
  order of \<open>Object.keys\<close>, the base capability object under the reserved key
  \<open>desiredCapabilities\<close> and the suites by name, each with its project, the two Android
  fields and its test devices. Capability objects are shared and mutable, so the
  configuration holds the address of each in a store of objects; an object is a map from
  property names to values.
\<close>

datatype jsval = JStr string | JUndefined

type_synonym obj = "string \<rightharpoonup> jsval"

type_synonym store = "obj list"

record device =
  deviceName :: jsval
  platformVersion :: jsval

record suite_conf =
  proj :: string
  appPackage :: jsval
  appActivity :: jsval
  testDevices :: "device list"

record platform_conf =
  desiredCapabilities :: nat
  suite_confs :: "(string \<times> suite_conf) list"

type_synonym config = "(string \<times> platform_conf) list"

text \<open>
  \<open>Object.keys\<close> of a platform's entry: its suites and the reserved key (the loop of
  \<open>transform\<close> skips the reserved key, wherever it stands).
\<close>

definition keys_of :: "platform_conf \<Rightarrow> string list" where
  "keys_of pc = ''desiredCapabilities'' # map fst (suite_confs pc)"

text \<open>
  \<open>configTests[platform][name]\<close>. Where the platform or the suite is missing, the
  functions below end in a \<open>TypeError\<close>: reading a property of \<open>undefined\<close>, or
  \<open>path.join\<close> on a project that is not a string.
\<close>

definition suite_of :: "config \<Rightarrow> string \<Rightarrow> string \<Rightarrow> (platform_conf \<times> suite_conf) option" where
  "suite_of configTests p n =
     (case map_of configTests p of
        None \<Rightarrow> None
      | Some pc \<Rightarrow> (case map_of (suite_confs pc) n of None \<Rightarrow> None | Some sc \<Rightarrow> Some (pc, sc)))"

text \<open>An optional string argument is truthy when it is given and not empty.\<close>

definition truthy :: "string option \<Rightarrow> bool" where
  "truthy a = (case a of None \<Rightarrow> False | Some s \<Rightarrow> s \<noteq> [])"

section \<open>The suite resolver \<open>Helper.transform\<close>\<close>

record target =
  abs_file :: string
  name :: string
  platform :: string

text \<open>Lines 63 to 75: \<open>suiteFiles\<close> starts as the argument and the loops append to it.\<close>

definition add_suite :: "host \<Rightarrow> string option \<Rightarrow> string \<Rightarrow> string \<Rightarrow> string \<Rightarrow> string" where
  "add_suite h platformArg p suiteFiles suite =
     (if suite \<noteq> ''desiredCapabilities''
      then (if \<not> truthy platformArg \<or> platformArg = Some p
            then suiteFiles @ suite @ [sep h] @ p @ ''.js,''
            else suiteFiles)
      else suiteFiles)"

definition enumerate_suites :: "host \<Rightarrow> config \<Rightarrow> string option \<Rightarrow> string \<Rightarrow> string" where
  "enumerate_suites h configTests platformArg suiteFiles =
     foldl (\<lambda>acc (p, pc). foldl (add_suite h platformArg p) acc (keys_of pc))
       suiteFiles configTests"

text \<open>Lines 63 to 80: the list \<open>files\<close>.\<close>

definition suite_files :: "host \<Rightarrow> config \<Rightarrow> string option \<Rightarrow> string option \<Rightarrow> string list" where
  "suite_files h configTests suiteArg platformArg =
     (let suiteFiles = enumerate_suites h configTests platformArg
                         (if truthy suiteArg then the suiteArg else []);
          suiteFiles = js_slice suiteFiles 0 (int (length suiteFiles) - 1)
      in js_split CHR '','' suiteFiles)"

text \<open>
  Lines 82 to 109, for one file. \<open>process.exit(1)\<close> ends the run; \<open>parts[1]\<close> is
  \<open>undefined\<close> where the file has no separator, and reading its \<open>length\<close> throws.
\<close>

definition resolve_file :: "host \<Rightarrow> string \<Rightarrow> string \<Rightarrow> js_error + target" where
  "resolve_file h appArg file =
     (if \<not> stat_ok h (path_join h [TEST_DIR, appArg, file]) then Inl (ProcessExit 1)
      else (case js_split (sep h) file of
              suite # platformFile # _ \<Rightarrow>
                (let extensionIndex = int (length platformFile) - 3;
                     platform = js_slice platformFile 0 extensionIndex;
                     notSupported =
                       (platform \<noteq> ''ios'' \<and> platform \<noteq> ''android'' \<and> platform \<noteq> ''windows'')
                 in if notSupported then Inl (ProcessExit 1)
                    else Inr \<lparr>abs_file = getAbsolutePath h appArg file, name = suite,
                              platform = platform\<rparr>)
            | _ \<Rightarrow> Inl TypeError))"

fun transform_loop :: "host \<Rightarrow> string \<Rightarrow> string list \<Rightarrow> target list \<Rightarrow> js_error + target list" where
  "transform_loop h appArg [] suites = Inr suites"
| "transform_loop h appArg (file # files) suites =
     (case resolve_file h appArg file of
        Inl e \<Rightarrow> Inl e
      | Inr t \<Rightarrow> transform_loop h appArg files (suites @ [t]))"

definition transform ::
  "host \<Rightarrow> config \<Rightarrow> string \<Rightarrow> string option \<Rightarrow> string option \<Rightarrow> js_error + target list" where
  "transform h configTests appArg suiteArg platformArg =
     transform_loop h appArg (suite_files h configTests suiteArg platformArg) []"

section \<open>The build pipeline \<open>Helper.buildTestApps\<close>\<close>

text \<open>
  What a run does to the outside, in order: a process is spawned, the \<open>'exit'\<close> event
  of the running process arrives with its code, \<open>change\<close> rewrites a \<open>tiapp.xml\<close> (the
  event keeps the key under which \<open>tiappMod\<close> remembers the project, and the file),
  and \<open>done\<close> is called. The log lines are left out.
\<close>

datatype event = Spawn string "string list" | Exit int | Change string string | Done

text \<open>
  \<open>tiappMod\<close> is an object literal \<open>{}\<close>: reading \<open>tiappMod[tiProj]\<close> finds the keys the
  run has set to \<open>true\<close> and, through the prototype chain, the properties of
  \<open>Object.prototype\<close>, which are functions or objects and so truthy.
\<close>

definition Object_prototype_keys :: "string list" where
  "Object_prototype_keys =
     [''constructor'', ''__defineGetter__'', ''__defineSetter__'', ''hasOwnProperty'',
      ''__lookupGetter__'', ''__lookupSetter__'', ''isPrototypeOf'', ''propertyIsEnumerable'',
      ''toString'', ''valueOf'', ''__proto__'', ''toLocaleString'']"

record build_state =
  tiappMod :: "string list"
  trace :: "event list"
  spawned :: nat

definition tiappMod_get :: "build_state \<Rightarrow> string \<Rightarrow> bool" where
  "tiappMod_get s tiProj = (tiProj \<in> set (tiappMod s) \<or> tiProj \<in> set Object_prototype_keys)"

text \<open>
  \<open>appc(flags, next)\<close>, lines 225 to 252: the process is spawned, and \<open>next\<close> is called
  when its \<open>'exit'\<close> event arrives; the handler does not look at the code. The result
  says whether \<open>next\<close> was called.
\<close>

definition appc_command :: "host \<Rightarrow> string list \<Rightarrow> string \<times> string list" where
  "appc_command h flags =
     (let appcExe = ''appc'' @ (if win32 h then ''.cmd'' else []);
          appcFlags = flags @ [''--no-banner'', ''--no-services'']
      in spawnConvert h appcExe appcFlags)"

definition appc :: "host \<Rightarrow> string list \<Rightarrow> build_state \<Rightarrow> bool \<times> build_state" where
  "appc h flags s =
     (let (cmd, appcFlags) = appc_command h flags;
          s1 = s\<lparr>trace := trace s @ [Spawn cmd appcFlags], spawned := Suc (spawned s)\<rparr>
      in case proc_end h (spawned s) of
           Exits code \<Rightarrow> (True, s1\<lparr>trace := trace s1 @ [Exit code]\<rparr>)
         | NeverExits \<Rightarrow> (False, s1))"

definition select_flags :: "string \<Rightarrow> string list" where
  "select_flags tiSdk = [''ti'', ''sdk'', ''select'', tiSdk]"

definition clean_flags :: "target \<Rightarrow> string \<Rightarrow> string list" where
  "clean_flags targetSuite tiProjDir =
     [''ti'', ''clean'', ''--platforms'', platform targetSuite, ''--project-dir'', tiProjDir]"

definition build_flags :: "target \<Rightarrow> string \<Rightarrow> string list" where
  "build_flags targetSuite tiProjDir =
     [''run'', ''--platform'', platform targetSuite, ''--project-dir'', tiProjDir,
      ''--build-only'']"

definition project_dir :: "host \<Rightarrow> string \<Rightarrow> target \<Rightarrow> string \<Rightarrow> string" where
  "project_dir h app targetSuite tiProj =
     getAbsolutePath h app (path_join h [name targetSuite, tiProj])"

text \<open>
  The first callback of a target, lines 270 to 284: the project is looked up, and its
  \<open>tiapp.xml\<close> is rewritten unless \<open>tiappMod\<close> has the project. An exception rejects the
  promise.
\<close>

definition patch_step ::
  "host \<Rightarrow> config \<Rightarrow> string \<Rightarrow> target \<Rightarrow> build_state \<Rightarrow> (js_error + string) \<times> build_state" where
  "patch_step h configTests app targetSuite s =
     (case suite_of configTests (platform targetSuite) (name targetSuite) of
        None \<Rightarrow> (Inl TypeError, s)
      | Some (pc, sc) \<Rightarrow>
          (let tiProj = proj sc;
               tiProjDir = project_dir h app targetSuite tiProj
           in if \<not> tiappMod_get s tiProj
              then (let tiappXmlFile = path_join h [tiProjDir, ''tiapp.xml''];
                        s1 = s\<lparr>tiappMod := tiProj # tiappMod s,
                               trace := trace s @ [Change tiProj tiappXmlFile]\<rparr>
                    in case change_error h tiappXmlFile of
                         Some e \<Rightarrow> (Inl e, s1)
                       | None \<Rightarrow> (Inr tiProjDir, s1))
              else (Inr tiProjDir, s)))"

text \<open>
  How a run ends: \<open>done\<close> was called, or a process never exits and the chain waits for
  it, or a callback threw and the chain is rejected (\<open>done\<close> is not called).
\<close>

datatype outcome = Completed | Pending | Rejected js_error

text \<open>The chain of promises that lines 268 to 325 build, one target after the other.\<close>

fun chain :: "host \<Rightarrow> config \<Rightarrow> string \<Rightarrow> target list \<Rightarrow> build_state \<Rightarrow> outcome \<times> build_state" where
  "chain h configTests app [] s = (Completed, s\<lparr>trace := trace s @ [Done]\<rparr>)"
| "chain h configTests app (targetSuite # suites) s =
     (case patch_step h configTests app targetSuite s of
        (Inl e, s1) \<Rightarrow> (Rejected e, s1)
      | (Inr tiProjDir, s1) \<Rightarrow>
          (case appc h (clean_flags targetSuite tiProjDir) s1 of
             (False, s2) \<Rightarrow> (Pending, s2)
           | (True, s2) \<Rightarrow>
               (case appc h (build_flags targetSuite tiProjDir) s2 of
                  (False, s3) \<Rightarrow> (Pending, s3)
                | (True, s3) \<Rightarrow> chain h configTests app suites s3)))"

definition buildTestApps ::
  "host \<Rightarrow> config \<Rightarrow> string \<Rightarrow> target list \<Rightarrow> string option \<Rightarrow> outcome \<times> build_state" where
  "buildTestApps h configTests app suites tiSdk =
     (let s0 = \<lparr>tiappMod = [], trace = [], spawned = 0\<rparr>
      in if \<not> truthy tiSdk then (Completed, s0\<lparr>trace := [Done]\<rparr>)
         else (case appc h (select_flags (the tiSdk)) s0 of
                 (False, s1) \<Rightarrow> (Pending, s1)
               | (True, s1) \<Rightarrow> chain h configTests app suites s1))"

text \<open>Readings of a trace: the calls of \<open>change\<close>, the spawned commands, the process events.\<close>

fun changes :: "event list \<Rightarrow> (string \<times> string) list" where
  "changes [] = []"
| "changes (Change tiProj file # es) = (tiProj, file) # changes es"
| "changes (e # es) = changes es"

fun spawns :: "event list \<Rightarrow> (string \<times> string list) list" where
  "spawns [] = []"
| "spawns (Spawn cmd flags # es) = (cmd, flags) # spawns es"
| "spawns (e # es) = spawns es"

fun is_proc_event :: "event \<Rightarrow> bool" where
  "is_proc_event (Spawn cmd flags) = True"
| "is_proc_event (Exit code) = True"
| "is_proc_event e = False"

text \<open>
  Strictly sequential process events: every spawn is followed by the exit of that
  process before the next spawn; only the last process may still be running.
\<close>

fun sequential :: "event list \<Rightarrow> bool" where
  "sequential [] = True"
| "sequential [Spawn cmd flags] = True"
| "sequential (Spawn cmd flags # Exit code # es) = sequential es"
| "sequential es = False"

text \<open>
  The process events of a trace, and the traces in which every spawned process has
  exited.
\<close>

definition procs :: "event list \<Rightarrow> event list" where
  "procs es = filter is_proc_event es"

fun closed :: "event list \<Rightarrow> bool" where
  "closed [] = True"
| "closed (Spawn cmd flags # Exit code # es) = closed es"
| "closed es = False"

text \<open>
  The commands the pipeline is to run for a list of targets: the selection of the SDK,
  then for each target its clean step and its build step.
\<close>

definition target_plan :: "host \<Rightarrow> config \<Rightarrow> string \<Rightarrow> target \<Rightarrow> (string \<times> string list) list" where
  "target_plan h configTests app targetSuite =
     (case suite_of configTests (platform targetSuite) (name targetSuite) of
        None \<Rightarrow> []
      | Some (pc, sc) \<Rightarrow>
          [appc_command h (clean_flags targetSuite (project_dir h app targetSuite (proj sc))),
           appc_command h (build_flags targetSuite (project_dir h app targetSuite (proj sc)))])"

definition plan :: "host \<Rightarrow> config \<Rightarrow> string \<Rightarrow> target list \<Rightarrow> string \<Rightarrow> (string \<times> string list) list" where
  "plan h configTests app suites tiSdk =
     appc_command h (select_flags tiSdk) # concat (map (target_plan h configTests app) suites)"

text \<open>The same host with other exit codes: \<open>f k code\<close> for the code of process \<open>k\<close>.\<close>

definition recode :: "(nat \<Rightarrow> int \<Rightarrow> int) \<Rightarrow> host \<Rightarrow> host" where
  "recode f h =
     h\<lparr>proc_end := (\<lambda>k. case proc_end h k of Exits code \<Rightarrow> Exits (f k code)
                                           | NeverExits \<Rightarrow> NeverExits)\<rparr>"

fun erase_code :: "event \<Rightarrow> event" where
  "erase_code (Exit code) = Exit 0"
| "erase_code e = e"

text \<open>Two states that differ at most in the exit codes their traces record.\<close>

definition same_but_codes :: "build_state \<Rightarrow> build_state \<Rightarrow> bool" where
  "same_but_codes s s' =
     (tiappMod s = tiappMod s' \<and> spawned s = spawned s' \<and>
      map erase_code (trace s) = map erase_code (trace s'))"

text \<open>
  The project of a target, which is the key of \<open>tiappMod\<close>, and the invariant of the
  memo: the calls of \<open>change\<close> so far are those of the keys of \<open>tiappMod\<close>, each once.
\<close>

definition project_of :: "config \<Rightarrow> target \<Rightarrow> string option" where
  "project_of configTests t =
     (case suite_of configTests (platform t) (name t) of
        None \<Rightarrow> None
      | Some (pc, sc) \<Rightarrow> Some (proj sc))"

definition memo_ok :: "build_state \<Rightarrow> bool" where
  "memo_ok s = (map fst (changes (trace s)) = rev (tiappMod s) \<and> distinct (tiappMod s))"

section \<open>The capability matrix builder \<open>Helper.createTests\<close>\<close>

text \<open>An output pair: the suite file and the address of the pair's capability object.\<close>

record test_entry =
  suite :: string
  cap :: nat

text \<open>
  Lines 350 to 383: the assignments to the properties of \<open>desiredCap\<close>, which is the
  object of the configuration itself.
\<close>

definition enrich :: "host \<Rightarrow> string \<Rightarrow> target \<Rightarrow> suite_conf \<Rightarrow> obj \<Rightarrow> obj" where
  "enrich h app targetSuite configSuite desiredCap =
     (let tiBuildDir = path_join h [name targetSuite, proj configSuite, ''build'']
      in if platform targetSuite = ''ios''
         then (let iosApp = path_join h [tiBuildDir, ''iphone'', ''build'', ''Products'',
                                         ''Debug-iphonesimulator'', proj configSuite @ ''.app'']
               in desiredCap(''platformName'' \<mapsto> JStr ''iOS'',
                             ''app'' \<mapsto> JStr (getAbsolutePath h app iosApp)))
         else if platform targetSuite = ''android''
         then (let androidApk = path_join h [tiBuildDir, ''android'', ''bin'',
                                             proj configSuite @ ''.apk'']
               in desiredCap(''platformName'' \<mapsto> JStr ''Android'',
                             ''appPackage'' \<mapsto> appPackage configSuite,
                             ''appActivity'' \<mapsto> appActivity configSuite,
                             ''app'' \<mapsto> JStr (getAbsolutePath h app androidApk)))
         else if platform targetSuite = ''windows''
         then desiredCap(''platformName'' \<mapsto> JStr ''Windows'')
         else desiredCap)"

text \<open>
  Lines 386 to 396, for one device: \<open>Object.assign({}, desiredCap)\<close> allocates a new
  object with the properties of \<open>desiredCap\<close>; the two device properties are set on the
  new object, and the pair is pushed.
\<close>

definition add_device :: "target \<Rightarrow> nat \<Rightarrow> test_entry list \<times> store \<Rightarrow> device \<Rightarrow> test_entry list \<times> store" where
  "add_device targetSuite desiredCap acc device =
     (let (listOfTests, st) = acc;
          newDesires = (st ! desiredCap)(''deviceName'' \<mapsto> deviceName device,
                                         ''platformVersion'' \<mapsto> platformVersion device)
      in (listOfTests @ [\<lparr>suite = abs_file targetSuite, cap = length st\<rparr>],
          st @ [newDesires]))"

text \<open>The body of the outer loop, lines 345 to 397, for one target.\<close>

definition create_for ::
  "host \<Rightarrow> config \<Rightarrow> string \<Rightarrow> target \<Rightarrow> test_entry list \<times> store \<Rightarrow> (js_error + test_entry list) \<times> store" where
  "create_for h configTests app targetSuite acc =
     (let (listOfTests, st) = acc
      in case suite_of configTests (platform targetSuite) (name targetSuite) of
           None \<Rightarrow> (Inl TypeError, st)
         | Some (tests, configSuite) \<Rightarrow>
             (let desiredCap = desiredCapabilities tests;
                  st1 = st[desiredCap := enrich h app targetSuite configSuite (st ! desiredCap)];
                  (l, st2) = foldl (add_device targetSuite desiredCap) (listOfTests, st1)
                               (testDevices configSuite)
              in (Inr l, st2)))"

fun createTests_loop ::
  "host \<Rightarrow> config \<Rightarrow> string \<Rightarrow> target list \<Rightarrow> test_entry list \<times> store \<Rightarrow> (js_error + test_entry list) \<times> store" where
  "createTests_loop h configTests app [] acc = (Inr (fst acc), snd acc)"
| "createTests_loop h configTests app (targetSuite # suites) acc =
     (case create_for h configTests app targetSuite acc of
        (Inl e, st) \<Rightarrow> (Inl e, st)
      | (Inr l, st) \<Rightarrow> createTests_loop h configTests app suites (l, st))"

definition createTests ::
  "host \<Rightarrow> config \<Rightarrow> string \<Rightarrow> target list \<Rightarrow> store \<Rightarrow> (js_error + test_entry list) \<times> store" where
  "createTests h configTests app suites st = createTests_loop h configTests app suites ([], st)"

text \<open>
  The configuration refers to objects of the store, and every target is a suite of the
  configuration.
\<close>

definition valid_config :: "config \<Rightarrow> store \<Rightarrow> bool" where
  "valid_config configTests st = list_all (\<lambda>(p, pc). desiredCapabilities pc < length st) configTests"

definition known_target :: "config \<Rightarrow> target \<Rightarrow> bool" where
  "known_target configTests targetSuite =
     (suite_of configTests (platform targetSuite) (name targetSuite) \<noteq> None)"

text \<open>
  The pairs a list of targets asks for, target by target and device by device, and what
  an output pair shows of its device: the suite file, the device name and the version.
\<close>

definition devices_of :: "config \<Rightarrow> target \<Rightarrow> device list" where
  "devices_of configTests targetSuite =
     (case suite_of configTests (platform targetSuite) (name targetSuite) of
        None \<Rightarrow> []
      | Some (pc, sc) \<Rightarrow> testDevices sc)"

definition expected_pairs :: "config \<Rightarrow> target list \<Rightarrow> (string \<times> jsval option \<times> jsval option) list" where
  "expected_pairs configTests suites =
     concat (map (\<lambda>t. map (\<lambda>d. (abs_file t, Some (deviceName d), Some (platformVersion d)))
                          (devices_of configTests t)) suites)"

definition shown :: "store \<Rightarrow> test_entry \<Rightarrow> string \<times> jsval option \<times> jsval option" where
  "shown st x = (suite x, (st ! cap x) ''deviceName'', (st ! cap x) ''platformVersion'')"

text \<open>The object a device gets: the copy with the two device properties.\<close>

definition new_desires :: "obj \<Rightarrow> device \<Rightarrow> obj" where
  "new_desires desiredCap device =
     desiredCap(''deviceName'' \<mapsto> deviceName device, ''platformVersion'' \<mapsto> platformVersion device)"

definition enriched_keys :: "string list" where
  "enriched_keys = [''platformName'', ''app'', ''appPackage'', ''appActivity'']"

section \<open>The server handle: \<open>Helper.runAppium\<close> and \<open>Helper.killAppium\<close>\<close>

text \<open>
  The two variables of the module (lines 11 and 12) and what the two functions do to the
  outside. \<open>spawn\<close> returns a handle with the process id the system gave.
\<close>

record child =
  pid :: nat

datatype effect = SpawnServer string "string list" | Taskkill nat | Kill nat | Info string

record globals =
  playerPid :: int
  appiumProc :: "child option"
  effects :: "effect list"

definition module_init :: globals where
  "module_init = \<lparr>playerPid = - 1, appiumProc = None, effects = []\<rparr>"

definition runAppium :: "host \<Rightarrow> nat \<Rightarrow> globals \<Rightarrow> globals" where
  "runAppium h new_pid g =
     (let appiumExe = path_join h [dirname h, ''..'', ''node_modules'', ''.bin'', ''appium'']
                      @ (if win32 h then ''.cmd'' else []);
          (cmd, flags) = spawnConvert h appiumExe []
      in g\<lparr>appiumProc := Some \<lparr>pid = new_pid\<rparr>, effects := effects g @ [SpawnServer cmd flags]\<rparr>)"

text \<open>
  Lines 179 to 186. Reading \<open>pid\<close> of \<open>null\<close>, or calling \<open>kill\<close> on \<open>null\<close>, throws a
  \<open>TypeError\<close>.
\<close>

definition killAppium :: "host \<Rightarrow> globals \<Rightarrow> js_error + globals" where
  "killAppium h g =
     (if win32 h
      then (let g1 = g\<lparr>effects := effects g @ [Info ''Appium server shutting down ...'']\<rparr>
            in case appiumProc g1 of
                 None \<Rightarrow> Inl TypeError
               | Some p \<Rightarrow> Inr (g1\<lparr>effects := effects g1 @ [Taskkill (pid p)]\<rparr>))
      else (case appiumProc g of
              None \<Rightarrow> Inl TypeError
            | Some p \<Rightarrow> Inr (g\<lparr>effects := effects g @ [Kill (pid p)]\<rparr>)))"

section \<open>A host and a configuration for the concrete runs\<close>

text \<open>
  A POSIX host: \<open>path.join\<close> joins the non-empty segments with \<open>/\<close> and resolves
  \<open>.\<close> and \<open>..\<close> (a \<open>..\<close> above the root of an absolute path is dropped, a slash at
  the end is kept); every process exits with code 0 and every \<open>tiapp.xml\<close> can be
  rewritten. The suite files of the application \<open>demo\<close> exist, and so does its directory.
\<close>

fun normalize :: "bool \<Rightarrow> string list \<Rightarrow> string list \<Rightarrow> string list" where
  "normalize absolute acc [] = rev acc"
| "normalize absolute acc (p # ps) =
     (if p = [] \<or> p = ''.'' then normalize absolute acc ps
      else if p = ''..''
      then (if acc \<noteq> [] \<and> hd acc \<noteq> ''..'' then normalize absolute (tl acc) ps
            else if absolute then normalize absolute acc ps
            else normalize absolute (p # acc) ps)
      else normalize absolute (p # acc) ps)"

definition posix_join :: "string list \<Rightarrow> string" where
  "posix_join ps =
     (let joined = join ''/'' (filter (\<lambda>p. p \<noteq> []) ps)
      in if joined = [] then ''.''
         else (let absolute = (hd joined = CHR ''/'');
                   trailing = (last joined = CHR ''/'');
                   out = join ''/'' (normalize absolute [] (js_split CHR ''/'' joined));
                   out = (if out = [] \<and> \<not> absolute then ''.'' else out);
                   out = (if out \<noteq> [] \<and> trailing then out @ ''/'' else out)
               in if absolute then CHR ''/'' # out else out))"

definition example_host :: host where
  "example_host =
     \<lparr>win32 = False, dirname = ''/repo/lib'', path_join = posix_join,
      stat_ok = (\<lambda>p. p \<in> set [''ui-tests/demo'', ''ui-tests/demo/login/android.js'',
                               ''ui-tests/demo/login/ios.js'',
                               ''ui-tests/demo/signup/android.js'']),
      change_error = (\<lambda>file. None),
      proc_end = (\<lambda>k. Exits 0)\<rparr>"

definition pixel :: device where
  "pixel = \<lparr>deviceName = JStr ''Google Pixel'', platformVersion = JStr ''9.0''\<rparr>"

definition nexus :: device where
  "nexus = \<lparr>deviceName = JStr ''Google Nexus 5'', platformVersion = JStr ''6.0''\<rparr>"

definition iphone :: device where
  "iphone = \<lparr>deviceName = JStr ''iPhone 8'', platformVersion = JStr ''12.4''\<rparr>"

definition example_suite :: "string \<Rightarrow> device list \<Rightarrow> suite_conf" where
  "example_suite p ds =
     \<lparr>proj = p, appPackage = JStr ''com.example.demo'', appActivity = JStr ''.DemoActivity'',
      testDevices = ds\<rparr>"

definition example_config :: config where
  "example_config =
     [(''android'', \<lparr>desiredCapabilities = 0,
                    suite_confs = [(''login'', example_suite ''demoapp'' [pixel, nexus]),
                                   (''signup'', example_suite ''signupapp'' [pixel])]\<rparr>),
      (''ios'', \<lparr>desiredCapabilities = 1,
                suite_confs = [(''login'', example_suite ''demoapp'' [iphone])]\<rparr>)]"

text \<open>
  The same configuration with the project of the suite \<open>login\<close> named \<open>constructor\<close>,
  a name that every object inherits from \<open>Object.prototype\<close>.
\<close>

definition prototype_config :: config where
  "prototype_config =
     [(''android'', \<lparr>desiredCapabilities = 0,
                    suite_confs = [(''login'', example_suite ''constructor'' [pixel, nexus]),
                                   (''signup'', example_suite ''signupapp'' [pixel])]\<rparr>),
      (''ios'', \<lparr>desiredCapabilities = 1,
                suite_confs = [(''login'', example_suite ''constructor'' [iphone])]\<rparr>)]"

text \<open>
  And with the two suites holding equally named projects, in their own directories.
\<close>

definition same_name_config :: config where
  "same_name_config =
     [(''android'', \<lparr>desiredCapabilities = 0,
                    suite_confs = [(''login'', example_suite ''demoapp'' [pixel, nexus]),
                                   (''signup'', example_suite ''demoapp'' [pixel])]\<rparr>),
      (''ios'', \<lparr>desiredCapabilities = 1,
                suite_confs = [(''login'', example_suite ''demoapp'' [iphone])]\<rparr>)]"

definition example_store :: store where
  "example_store = [[''automationName'' \<mapsto> JStr ''Appium''], [''automationName'' \<mapsto> JStr ''XCUITest'']]"

definition example_targets :: "target list" where
  "example_targets =
     [\<lparr>abs_file = ''/repo/ui-tests/demo/login/android.js'', name = ''login'', platform = ''android''\<rparr>,
      \<lparr>abs_file = ''/repo/ui-tests/demo/signup/android.js'', name = ''signup'', platform = ''android''\<rparr>,
      \<lparr>abs_file = ''/repo/ui-tests/demo/login/ios.js'', name = ''login'', platform = ''ios''\<rparr>]"

section \<open>The matcher finds what the patterns derive\<close>

lemma exec_at_sound:
  "exec_at r s = Some n \<Longrightarrow> n \<le> length s \<and> derives r (take n s)"
proof (induction r s arbitrary: n rule: exec_at.induct)
  case (1 s)
  then show ?case by simp
next
  case (2 a r)
  then show ?case by simp
next
  case (3 a r c cs)
  then show ?case by (auto split: if_splits)
next
  case (4 a r)
  then show ?case by simp
next
  case (5 a r c cs)
  from "5.prems" have acc: "accepts a c" by (simp split: if_splits)
  show ?case
  proof (cases "exec_at (Plus a # r) cs")
    case None
    with "5.prems" acc obtain m where m: "exec_at r cs = Some m" "n = Suc m" by auto
    from "5.IH"(2)[OF acc None m(1)] have "m \<le> length cs" "derives r (take m cs)" by auto
    have "take n (c # cs) = [c] @ take m cs" using m by simp
    moreover have "\<forall>x\<in>set [c]. accepts a x" using acc by simp
    ultimately have "derives (Plus a # r) (take n (c # cs))" using \<open>derives r (take m cs)\<close>
      by (metis derives.simps(3) list.distinct(1))
    with m \<open>m \<le> length cs\<close> show ?thesis by simp
  next
    case (Some k)
    with "5.prems" acc have n: "n = Suc k" by simp
    from "5.IH"(1)[OF acc Some] have k: "k \<le> length cs" "derives (Plus a # r) (take k cs)" by auto
    then obtain u t where ut: "u \<noteq> []" "\<forall>c\<in>set u. accepts a c" "take k cs = u @ t" "derives r t"
      by auto
    have "take n (c # cs) = (c # u) @ t" using n ut by simp
    moreover have "\<forall>x\<in>set (c # u). accepts a x" using acc ut by simp
    ultimately have "derives (Plus a # r) (take n (c # cs))" using ut(4) 
      by (metis derives.simps(3) list.distinct(1))
    then show ?thesis using n k by simp
  qed
qed

lemma derives_nonempty: "derives (i # r) s \<Longrightarrow> s \<noteq> [] \<and> accepts (atom_of i) (hd s)"
  by (cases i) auto

lemma plus_reject: "\<not> accepts a c \<Longrightarrow> exec_at (Plus a # r) (c # s) = None"
  by simp

lemma exec_at_greedy:
  "det r \<Longrightarrow> derives r u \<Longrightarrow> stops r v \<Longrightarrow> exec_at r (u @ v) = Some (length u)"
proof (induction r arbitrary: u)
  case Nil
  then show ?case by simp
next
  case (Cons i r)
  have detr: "det r" using Cons.prems(1) by (cases i; cases r) auto
  have stopr: "stops r v" using Cons.prems(3) by (cases v; cases r) auto
  show ?case
  proof (cases i)
    case (One a)
    with Cons.prems(2) obtain c t where ct: "u = c # t" "accepts a c" "derives r t" by auto
    from Cons.IH[OF detr ct(3) stopr] show ?thesis using One ct by simp
  next
    case (Plus a)
    with Cons.prems(2) obtain w t where wt: "w \<noteq> []" "\<forall>c\<in>set w. accepts a c" "u = w @ t" "derives r t"
      by auto
    have rest: "exec_at r (t @ v) = Some (length t)" by (rule Cons.IH[OF detr wt(4) stopr])
    have none: "exec_at (Plus a # r) (t @ v) = None"
    proof (cases r)
      case Nil
      with wt(4) have t: "t = []" by simp
      show ?thesis
      proof (cases v)
        case Nil then show ?thesis using t by simp
      next
        case (Cons c v')
        with Cons.prems(3) Plus \<open>r = []\<close> have "\<not> accepts a c" by simp
        then show ?thesis using t Cons by simp
      qed
    next
      case (Cons j r')
      with wt(4) have "t \<noteq> []" "accepts (atom_of j) (hd t)" using derives_nonempty by blast+
      moreover from Cons.prems(1) Plus Cons have "\<not> (accepts a (hd t) \<and> accepts (atom_of j) (hd t))"
        by simp
      ultimately show ?thesis by (cases t) auto
    qed
    have "exec_at (Plus a # r) (w @ t @ v) = Some (length w + length t)"
      using wt(1,2)
    proof (induction w)
      case Nil then show ?case by simp
    next
      case (Cons c w')
      show ?case
      proof (cases "w' = []")
        case True
        then show ?thesis using Cons.prems none rest by simp
      next
        case False
        then show ?thesis using Cons by simp
      qed
    qed
    then show ?thesis using Plus wt(3) by simp
  qed
qed



lemma derives_append:
  "derives (r1 @ r2) s \<longleftrightarrow> (\<exists>u v. s = u @ v \<and> derives r1 u \<and> derives r2 v)"
proof (induction r1 arbitrary: s)
  case Nil
  then show ?case by simp
next
  case (Cons i r1)
  show ?case
  proof (cases i)
    case (One a)
    show ?thesis
    proof
      assume "derives ((i # r1) @ r2) s"
      then obtain c t where ct: "s = c # t" "accepts a c" "derives (r1 @ r2) t" using One by auto
      then obtain u v where "t = u @ v" "derives r1 u" "derives r2 v" using Cons.IH by blast
      then have "s = (c # u) @ v \<and> derives (i # r1) (c # u) \<and> derives r2 v"
        using ct One by simp
      then show "\<exists>u v. s = u @ v \<and> derives (i # r1) u \<and> derives r2 v" by blast
    next
      assume "\<exists>u v. s = u @ v \<and> derives (i # r1) u \<and> derives r2 v"
      then obtain u v where uv: "s = u @ v" "derives (i # r1) u" "derives r2 v" by blast
      then obtain c t where ct: "u = c # t" "accepts a c" "derives r1 t" using One by auto
      then have "derives (r1 @ r2) (t @ v)" using Cons.IH uv(3) by blast
      then show "derives ((i # r1) @ r2) s" using One ct uv(1) by simp
    qed
  next
    case (Plus a)
    show ?thesis
    proof
      assume "derives ((i # r1) @ r2) s"
      then obtain w t where wt: "w \<noteq> []" "\<forall>c\<in>set w. accepts a c" "s = w @ t" "derives (r1 @ r2) t"
        using Plus by auto
      then obtain u v where uv: "t = u @ v" "derives r1 u" "derives r2 v" using Cons.IH by blast
      have "derives (i # r1) (w @ u)" using Plus wt(1,2) uv(2) by auto
      then have "s = (w @ u) @ v \<and> derives (i # r1) (w @ u) \<and> derives r2 v"
        using wt(3) uv by simp
      then show "\<exists>u v. s = u @ v \<and> derives (i # r1) u \<and> derives r2 v" by blast
    next
      assume "\<exists>u v. s = u @ v \<and> derives (i # r1) u \<and> derives r2 v"
      then obtain u v where uv: "s = u @ v" "derives (i # r1) u" "derives r2 v" by blast
      then obtain w t where wt: "w \<noteq> []" "\<forall>c\<in>set w. accepts a c" "u = w @ t" "derives r1 t"
        using Plus by auto
      then have "derives (r1 @ r2) (t @ v)" using Cons.IH uv(3) by blast
      then have "derives (Plus a # r1 @ r2) (w @ t @ v)" using wt(1,2) by auto
      then show "derives ((i # r1) @ r2) s" using Plus wt(3) uv(1) by simp
    qed
  qed
qed

lemma derives_lit: "derives (lit x) u \<longleftrightarrow> u = x"
  by (induction x arbitrary: u) (auto simp: lit_def)

lemma derives_plus: "derives [Plus a] u \<longleftrightarrow> u \<noteq> [] \<and> (\<forall>c\<in>set u. accepts a c)"
  by auto

lemma derives_chars:
  "derives r s \<Longrightarrow> c \<in> set s \<Longrightarrow> \<exists>i\<in>set r. accepts (atom_of i) c"
proof (induction r arbitrary: s)
  case Nil
  then show ?case by simp
next
  case (Cons i r)
  then show ?case by (cases i) (auto, blast+)
qed

lemma match_all_members:
  "x \<in> set (match_all r s) \<Longrightarrow> \<exists>t n. exec_at r t = Some n \<and> x = take n t"
proof (induction r s rule: match_all.induct)
  case (1 r)
  then obtain n where "exec_at r [] = Some n" "x = []"
    by (cases "exec_at r []") auto
  then have "exec_at r [] = Some n \<and> x = take n []" by simp
  then show ?case by blast
next
  case (2 r c cs)
  show ?case
  proof (cases "exec_at r (c # cs)")
    case None
    with 2 show ?thesis by simp
  next
    case (Some n)
    show ?thesis
    proof (cases "x = take n (c # cs)")
      case True
      with Some show ?thesis by blast
    next
      case False
      with 2 Some show ?thesis by (cases "n = 0") auto
    qed
  qed
qed

lemma match_all_derives: "x \<in> set (match_all r s) \<Longrightarrow> derives r x"
  using match_all_members exec_at_sound by blast

lemma match_all_first:
  "exec_at r s = Some n \<Longrightarrow> 0 < n \<Longrightarrow> match_all r s = take n s # match_all r (drop n s)"
  using exec_at_sound[of r s n] by (cases s) auto

lemma match_all_needs:
  "(\<And>u. derives r u \<Longrightarrow> x \<in> set u) \<Longrightarrow> x \<notin> set s \<Longrightarrow> match_all r s = []"
proof (induction r s rule: match_all.induct)
  case (1 r)
  have "exec_at r [] = None"
  proof (cases "exec_at r []")
    case (Some n)
    from exec_at_sound[OF Some] have "derives r []" by simp
    from "1.prems"(1)[OF this] show ?thesis by simp
  qed simp
  then show ?case by simp
next
  case (2 r c cs)
  have none: "exec_at r (c # cs) = None"
  proof (cases "exec_at r (c # cs)")
    case (Some n)
    from exec_at_sound[OF Some] have "derives r (take n (c # cs))" by simp
    from "2.prems"(1)[OF this] have "x \<in> set (c # cs)" by (meson in_set_takeD)
    with "2.prems"(2) show ?thesis by simp
  qed simp
  have "match_all r cs = []" using "2.IH"(1)[OF none] "2.prems" by simp
  with none show ?case by simp
qed

lemma test_append: "exec_at r s \<noteq> None \<Longrightarrow> test r (p @ s)"
  by (induction p) (cases s; auto)+

section \<open>Boot lines\<close>

lemma not_digit [simp]:
  "\<not> is_digit CHR '' ''" "\<not> is_digit CHR ''-''" "\<not> is_digit CHR ''T''"
  "\<not> is_digit CHR '':''" "\<not> is_digit CHR ''+''" "\<not> is_digit CHR '']''"
  by (simp_all add: is_digit_def)

lemma digit_not_line_end: "is_digit c \<Longrightarrow> c \<noteq> CHR 0x0A \<and> c \<noteq> CHR 0x0D"
  by (auto simp: is_digit_def)

lemma det_tsRe: "det tsRe"
  by (auto simp: tsRe_def)

lemma tsRe_needs_dash: "derives tsRe u \<Longrightarrow> CHR ''-'' \<in> set u"
  by (auto simp: tsRe_def)

lemma tsRe_no_space: "derives tsRe u \<Longrightarrow> CHR '' '' \<notin> set u"
proof
  assume d: "derives tsRe u" and "CHR '' '' \<in> set u"
  from derives_chars[OF this] show False by (auto simp: tsRe_def)
qed

lemma tailRe_shape:
  assumes "derives tailRe rst"
  obtains d1 d2 where
    "rst = '' [Genymotion Player:'' @ d1 @ ''] [debug] Device booted in '' @ d2 @ '' ms''"
    "d1 \<noteq> []" "\<forall>c\<in>set d1. is_digit c" "d2 \<noteq> []" "\<forall>c\<in>set d2. is_digit c"
proof -
  from assms obtain a b c d e where
    "rst = a @ b @ c @ d @ e" "derives (lit '' [Genymotion Player:'') a" "derives [Plus Digit] b"
    "derives (lit ''] [debug] Device booted in '') c" "derives [Plus Digit] d"
    "derives (lit '' ms'') e"
    unfolding tailRe_def derives_append by blast
  then show thesis using that[of b d] by (simp add: derives_lit)
qed

lemma boot_line_timestamp:
  assumes "derives bootRe l"
  shows "match_all tsRe l = [timestamp_of l]"
proof -
  from assms obtain ts rst where l: "l = ts @ rst" and ts: "derives tsRe ts" and rst: "derives tailRe rst"
    unfolding bootRe_def derives_append by blast
  from rst obtain d1 d2 where shape:
    "rst = '' [Genymotion Player:'' @ d1 @ ''] [debug] Device booted in '' @ d2 @ '' ms''"
    "\<forall>c\<in>set d1. is_digit c" "\<forall>c\<in>set d2. is_digit c"
    by (rule tailRe_shape)
  have nodash: "CHR ''-'' \<notin> set rst" using shape by auto
  have stops: "stops tsRe rst" using shape(1) by (simp add: tsRe_def)
  have ne: "ts \<noteq> []" using tsRe_needs_dash[OF ts] by auto
  have "exec_at tsRe (ts @ rst) = Some (length ts)"
    by (rule exec_at_greedy[OF det_tsRe ts stops])
  from match_all_first[OF this] ne have "match_all tsRe l = ts # match_all tsRe rst"
    using l by simp
  moreover have "match_all tsRe rst = []"
    by (rule match_all_needs[OF tsRe_needs_dash nodash])
  moreover have "timestamp_of l = ts"
  proof -
    obtain r' where "rst = CHR '' '' # r'" using shape(1) by simp
    then have "timestamp_of l = takeWhile (\<lambda>c. c \<noteq> CHR '' '') ts"
      using l by (simp add: timestamp_of_def takeWhile_tail)
    also have "\<dots> = ts" using tsRe_no_space[OF ts] by auto
    finally show ?thesis .
  qed
  ultimately show ?thesis by simp
qed

lemma exec_at_booted: "(\<forall>c\<in>set d. is_digit c) \<Longrightarrow> exec_at bootedInRe (''Device booted in '' @ d @ '' ms'') \<noteq> None"
proof -
  assume dig: "\<forall>c\<in>set d. is_digit c"
  have det: "det bootedInRe" by (simp add: bootedInRe_def lit_def)
  have "derives [Plus Dot] (d @ '' ms'')" using dig digit_not_line_end by auto
  then have "derives bootedInRe (''Device booted in '' @ (d @ '' ms''))"
    unfolding bootedInRe_def derives_append derives_lit by blast
  from exec_at_greedy[OF det this, of "[]"] show ?thesis by simp
qed

lemma boot_line_booted:
  assumes "derives bootRe l"
  shows "test bootedInRe l"
proof -
  from assms obtain ts rst where l: "l = ts @ rst" and rst: "derives tailRe rst"
    unfolding bootRe_def derives_append by blast
  from rst obtain d1 d2 where shape:
    "rst = '' [Genymotion Player:'' @ d1 @ ''] [debug] Device booted in '' @ d2 @ '' ms''"
    "\<forall>c\<in>set d2. is_digit c"
    by (rule tailRe_shape)
  have "l = (ts @ '' [Genymotion Player:'' @ d1 @ ''] [debug] '') @ (''Device booted in '' @ d2 @ '' ms'')"
    using l shape(1) by simp
  then show ?thesis using test_append[OF exec_at_booted[OF shape(2)]] by metis
qed




section \<open>Matches do not cross a line end\<close>

lemma exec_at_cut:
  "\<forall>i\<in>set r. \<not> accepts (atom_of i) x \<Longrightarrow> exec_at r (u @ x # s) = exec_at r u"
proof (induction r u rule: exec_at.induct)
  case (5 a r c cs)
  show ?case
  proof (cases "accepts a c")
    case True
    show ?thesis
    proof (cases "exec_at (Plus a # r) cs")
      case None
      with 5 True show ?thesis by simp
    next
      case (Some n)
      with 5 True show ?thesis by simp
    qed
  next
    case False
    then show ?thesis by simp
  qed
qed simp_all

lemma match_all_unfold:
  "p \<noteq> [] \<Longrightarrow> match_all r p =
     (case exec_at r p of
        None \<Rightarrow> match_all r (tl p)
      | Some n \<Rightarrow> take n p # (if n = 0 then match_all r (tl p) else match_all r (drop n p)))"
  by (cases p) (auto split: option.splits)

lemma match_all_cut:
  "\<forall>i\<in>set r. \<not> accepts (atom_of i) x \<Longrightarrow> r \<noteq> [] \<Longrightarrow>
   match_all r (p @ x # s) = match_all r p @ match_all r s"
proof (induction r p rule: match_all.induct)
  case (1 r)
  then obtain i r' where r: "r = i # r'" by (cases r) auto
  with 1 have "\<not> accepts (atom_of i) x" by simp
  then have "exec_at r (x # s) = None" "exec_at r [] = None" using r by (cases i; simp)+
  then show ?case by simp
next
  case (2 r c cs)
  define p where "p = c # cs"
  have pne: "p \<noteq> []" "p @ x # s \<noteq> []" "tl (p @ x # s) = tl p @ x # s" "tl p = cs"
    by (simp_all add: p_def)
  have cut: "exec_at r (p @ x # s) = exec_at r p"
    by (rule exec_at_cut[OF "2.prems"(1)])
  show ?case
  proof (cases "exec_at r p")
    case None
    then have "match_all r (cs @ x # s) = match_all r cs @ match_all r s"
      using "2.IH"(1) "2.prems" by (simp add: p_def)
    then show ?thesis
      unfolding p_def[symmetric] match_all_unfold[OF pne(1)] match_all_unfold[OF pne(2)] cut
      using None pne by simp
  next
    case (Some n)
    from exec_at_sound[OF Some] have n: "n \<le> length p" by simp
    have td: "drop n (p @ x # s) = drop n p @ x # s" "take n (p @ x # s) = take n p"
      using n by simp_all
    show ?thesis
    proof (cases "n = 0")
      case True
      have "match_all r (cs @ x # s) = match_all r cs @ match_all r s"
        using "2.IH"(2) Some True "2.prems" by (simp add: p_def)
      then show ?thesis
        unfolding p_def[symmetric] match_all_unfold[OF pne(1)] match_all_unfold[OF pne(2)] cut
        using Some True pne by simp
    next
      case False
      have "match_all r (drop n p @ x # s) = match_all r (drop n p) @ match_all r s"
        using "2.IH"(3) Some False "2.prems" unfolding p_def by blast
      then show ?thesis
        unfolding p_def[symmetric] match_all_unfold[OF pne(1)] match_all_unfold[OF pne(2)] cut
        using Some False td by simp
    qed
  qed
qed

lemma trim_no_trailing:
  assumes "s \<noteq> []" "\<not> is_space (last s)"
  shows "trim s = dropWhile is_space s"
proof -
  let ?d = "dropWhile is_space s"
  have ne: "?d \<noteq> []" using assms by auto
  have "s = takeWhile is_space s @ ?d" by simp
  then have "last s = last ?d" using ne by (metis last_appendR)
  then have "\<not> is_space (hd (rev ?d))" using assms(2) ne by (simp add: hd_rev)
  then have "dropWhile is_space (rev ?d) = rev ?d" by (simp add: dropWhile_eq_self_iff)
  then show ?thesis by (simp add: trim_def)
qed

lemma match_all_skip_spaces:
  "match_all (Plus Digit # r) (dropWhile is_space s) = match_all (Plus Digit # r) s"
proof (induction s)
  case Nil
  then show ?case by simp
next
  case (Cons c s)
  show ?case
  proof (cases "is_space c")
    case True
    then have "\<not> is_digit c" by (auto simp: is_space_def is_digit_def)
    with True Cons show ?thesis by simp
  next
    case False
    then show ?thesis by simp
  qed
qed

section \<open>One data event resolves on a fresh last boot line\<close>

lemmas regex_defs = bootRe_def tsRe_def tailRe_def bootedInRe_def lit_def is_digit_def

text \<open>
  One \<open>'data'\<close> event. On the text it is given, the callback resolves the watch (and
  stops watching) if and only if the text holds a match of the boot line pattern and the
  last match is fresh: its embedded time stamp parses to a time at most 10000 ms before
  the current time, and the line matches the pattern \<open>Device booted in .+\<close>. Otherwise
  the watch is left as it was. The code reads the time stamp with a second global match
  and converts the array of matches to a string; on a boot line that array holds the one
  time stamp at the start of the line.
\<close>

lemma onData_resolves_iff_fresh:
  "onData date_parse now output w =
     (let matches = match_all bootRe (trim output) in
      if matches \<noteq> [] \<and> fresh_boot_line date_parse now (last matches)
      then w\<lparr>watching := False, resolved := True\<rparr> else w)"
proof (cases "match_all bootRe (trim output) = []")
  case True
  then show ?thesis by (simp add: onData_def)
next
  case False
  then have "last (match_all bootRe (trim output)) \<in> set (match_all bootRe (trim output))" by simp
  then have "derives bootRe (last (match_all bootRe (trim output)))" by (rule match_all_derives)
  from boot_line_timestamp[OF this] False show ?thesis
    by (auto simp: onData_def Let_def match_to_string_def fresh_boot_line_def split: option.splits)
qed

text \<open>
  A boot line that is 3 seconds old resolves the watch; the same line alone, 30 seconds
  old, does not, and the watch stays subscribed.
\<close>

lemma onData_resolves_iff_fresh_examples:
  "onData example_date_parse 1569924003000 boot_line_0 \<lparr>watching = True, resolved = False\<rparr>
     = \<lparr>watching = False, resolved = True\<rparr> \<and>
   onData example_date_parse 1569924030000 boot_line_0 \<lparr>watching = True, resolved = False\<rparr>
     = \<lparr>watching = True, resolved = False\<rparr>"
proof -
  have m: "match_all bootRe (trim boot_line_0) = [boot_line_0]"
    by (simp add: boot_line_0_def trim_def is_space_def regex_defs)
  have t: "timestamp_of boot_line_0 = ''2019-10-01T10:00:00+00:00''"
    by (simp add: boot_line_0_def timestamp_of_def)
  have b: "test bootedInRe boot_line_0"
    by (simp add: boot_line_0_def regex_defs)
  show ?thesis
    using onData_resolves_iff_fresh[of example_date_parse 1569924003000 boot_line_0]
      onData_resolves_iff_fresh[of example_date_parse 1569924030000 boot_line_0]
    by (simp add: m t b fresh_boot_line_def example_date_parse_def)
qed

lemma boot_line_facts:
  assumes "is_boot_line l"
  shows "l \<noteq> []" "\<not> is_space (last l)" "match_all bootRe l = [l]"
proof -
  from assms have ex: "exec_at bootRe l = Some (length l)" by (simp add: is_boot_line_def)
  from exec_at_sound[OF ex] have "derives bootRe l" by simp
  then obtain ts rst where l: "l = ts @ rst" and rst: "derives tailRe rst"
    unfolding bootRe_def derives_append by blast
  from rst obtain d1 d2 where
    "rst = '' [Genymotion Player:'' @ d1 @ ''] [debug] Device booted in '' @ d2 @ '' ms''"
    by (rule tailRe_shape)
  then have "l = (ts @ '' [Genymotion Player:'' @ d1 @ ''] [debug] Device booted in '' @ d2 @ '' m'') @ ''s''"
    using l by simp
  then have last: "last l = CHR ''s''" and ne: "l \<noteq> []" by (metis last_snoc, auto)
  show "l \<noteq> []" by (rule ne)
  show "\<not> is_space (last l)" using last by (simp add: is_space_def)
  have "exec_at bootRe [] = None" by (simp add: bootRe_def tsRe_def)
  then show "match_all bootRe l = [l]" using match_all_first[OF ex] ne by simp
qed

lemma last_line_matches:
  assumes "is_boot_line l"
  shows "match_all bootRe (trim (earlier @ CHR 0x0A # l)) = match_all bootRe earlier @ [l]"
proof -
  note f = boot_line_facts[OF assms]
  have "last (earlier @ CHR 0x0A # l) = last l" using f(1) by simp
  then have "trim (earlier @ CHR 0x0A # l) = dropWhile is_space (earlier @ CHR 0x0A # l)"
    using f(2) by (intro trim_no_trailing) simp_all
  moreover have "match_all bootRe (dropWhile is_space (earlier @ CHR 0x0A # l))
      = match_all bootRe (earlier @ CHR 0x0A # l)"
    unfolding bootRe_def tsRe_def append_Cons by (rule match_all_skip_spaces)
  moreover have "match_all bootRe (earlier @ CHR 0x0A # l) = match_all bootRe earlier @ match_all bootRe l"
    by (rule match_all_cut) (simp_all add: regex_defs)
  ultimately show ?thesis using f(3) by simp
qed

lemma only_boot_line_matches:
  assumes "is_boot_line l"
  shows "match_all bootRe (trim l) = [l]"
proof -
  note f = boot_line_facts[OF assms]
  have "trim l = dropWhile is_space l" using f by (intro trim_no_trailing)
  moreover have "match_all bootRe (dropWhile is_space l) = match_all bootRe l"
    unfolding bootRe_def tsRe_def append_Cons by (rule match_all_skip_spaces)
  ultimately show ?thesis using f(3) by simp
qed

text \<open>
  Within one text only the last boot line decides: a text that ends in a boot line is
  decided as that line alone would be, whatever stands before it, and two texts whose
  last matches of the boot line pattern are equal are decided alike.
\<close>

lemma onData_last_line_decides:
  "(is_boot_line l \<longrightarrow>
      onData date_parse now (earlier @ [CHR 0x0A] @ l) w = onData date_parse now l w) \<and>
   (match_all bootRe (trim out1) \<noteq> [] \<and> match_all bootRe (trim out2) \<noteq> [] \<and>
    last (match_all bootRe (trim out1)) = last (match_all bootRe (trim out2)) \<longrightarrow>
      onData date_parse now out1 w = onData date_parse now out2 w)"
proof (intro conjI impI)
  assume "is_boot_line l"
  from last_line_matches[OF this] only_boot_line_matches[OF this]
  show "onData date_parse now (earlier @ [CHR 0x0A] @ l) w = onData date_parse now l w"
    by (simp add: onData_def)
next
  assume "match_all bootRe (trim out1) \<noteq> [] \<and> match_all bootRe (trim out2) \<noteq> [] \<and>
    last (match_all bootRe (trim out1)) = last (match_all bootRe (trim out2))"
  then show "onData date_parse now out1 w = onData date_parse now out2 w"
    by (simp add: onData_def)
qed

text \<open>
  A log of two boot lines, 30 and 3 seconds old: the watch resolves on the second, and
  the stale first line is ignored.
\<close>

lemma onData_last_line_decides_example:
  "is_boot_line boot_line_27 \<and>
   onData example_date_parse 1569924030000 (boot_line_0 @ [CHR 0x0A] @ boot_line_27)
     \<lparr>watching = True, resolved = False\<rparr> = \<lparr>watching = False, resolved = True\<rparr>"
proof -
  have bl: "is_boot_line boot_line_27"
    by (simp add: is_boot_line_def boot_line_27_def regex_defs)
  have m: "match_all bootRe (trim boot_line_27) = [boot_line_27]"
    by (rule only_boot_line_matches[OF bl])
  have "onData example_date_parse 1569924030000 boot_line_27 \<lparr>watching = True, resolved = False\<rparr>
      = \<lparr>watching = False, resolved = True\<rparr>"
    by (simp add: onData_def m)
       (simp add: boot_line_27_def regex_defs match_to_string_def example_date_parse_def)
  with bl onData_last_line_decides[of boot_line_27 example_date_parse 1569924030000 boot_line_0]
  show ?thesis by simp
qed


section \<open>The watch on a log longer than one chunk\<close>

declare chunks.simps [simp del]

lemma chunks_single:
  "content \<noteq> [] \<Longrightarrow> length content \<le> highWaterMark \<Longrightarrow> chunks highWaterMark content = [content]"
  by (subst chunks.simps, subst chunks.simps) (simp add: highWaterMark_def)

lemma onChange_single_chunk:
  "content \<noteq> [] \<Longrightarrow> length content \<le> highWaterMark \<Longrightarrow>
   onChange date_parse clock content w = onData date_parse (clock 0) content w"
  by (simp add: onChange_def chunks_single)

lemma chunks_two:
  assumes "length a = highWaterMark" "b \<noteq> []" "length b \<le> highWaterMark"
  shows "chunks highWaterMark (a @ b) = [a, b]"
proof -
  have "chunks highWaterMark (a @ b) = a # chunks highWaterMark b"
    using assms by (subst chunks.simps) (simp add: highWaterMark_def)
  then show ?thesis using chunks_single[OF assms(2,3)] by simp
qed

lemma match_all_trim:
  assumes "s \<noteq> []" "\<not> is_space (last s)"
  shows "match_all bootRe (trim s) = match_all bootRe s"
proof -
  have "trim s = dropWhile is_space s" using assms by (rule trim_no_trailing)
  moreover have "match_all bootRe (dropWhile is_space s) = match_all bootRe s"
    unfolding bootRe_def tsRe_def append_Cons by (rule match_all_skip_spaces)
  ultimately show ?thesis by simp
qed

lemma bootRe_no_newline: "\<forall>i\<in>set bootRe. \<not> accepts (atom_of i) (CHR 0x0A)"
  by (simp add: regex_defs)

lemma bootRe_needs:
  assumes "derives bootRe u"
  shows "CHR ''-'' \<in> set u" "CHR '']'' \<in> set u" "CHR ''T'' \<in> set u"
proof -
  from assms obtain ts rst where u: "u = ts @ rst" and ts: "derives tsRe ts" and rst: "derives tailRe rst"
    unfolding bootRe_def derives_append by blast
  from rst obtain d1 d2 where
    "rst = '' [Genymotion Player:'' @ d1 @ ''] [debug] Device booted in '' @ d2 @ '' ms''"
    by (rule tailRe_shape)
  then show "CHR '']'' \<in> set u" using u by simp
  show "CHR ''-'' \<in> set u" using tsRe_needs_dash[OF ts] u by simp
  from ts show "CHR ''T'' \<in> set u" unfolding u by (auto simp: tsRe_def)
qed

lemma boot_lines:
  "is_boot_line boot_line_0" "is_boot_line boot_line_27"
  by (simp_all add: is_boot_line_def boot_line_0_def boot_line_27_def regex_defs)

lemma filler_no_match: "match_all bootRe (replicate n (CHR ''x'')) = []"
  by (rule match_all_needs[where x="CHR ''-''"]) (auto dest: bootRe_needs)

lemma boot_line_lengths: "length boot_line_0 = 84" "length boot_line_27 = 84"
  by (simp_all add: boot_line_0_def boot_line_27_def)

lemma boot_line_27_cut:
  "take 40 boot_line_27 = ''2019-10-01T10:00:27+00:00 [Genymotion Pl''"
  "drop 40 boot_line_27 = ''ayer:1301] [debug] Device booted in 24110 ms''"
  by (simp_all add: boot_line_27_def)

lemma cut_log_chunks: "chunks highWaterMark cut_log = [cut_head, cut_tail]"
proof -
  have eq: "cut_log = cut_head @ cut_tail"
    by (simp add: cut_log_def cut_head_def cut_tail_def boot_line_27_def)
  have l: "length cut_head = highWaterMark"
    by (simp add: cut_head_def boot_line_lengths highWaterMark_def)
  have t: "cut_tail \<noteq> []" "length cut_tail \<le> highWaterMark"
    by (simp_all add: cut_tail_def highWaterMark_def)
  show ?thesis unfolding eq by (rule chunks_two[OF l t])
qed

lemma cut_head_matches: "match_all bootRe (trim cut_head) = [boot_line_0]"
proof -
  define piece where "piece = ''2019-10-01T10:00:27+00:00 [Genymotion Pl''"
  define filler where "filler = replicate 65410 (CHR ''x'')"
  define rest where "rest = filler @ CHR 0x0A # piece"
  have ne: "cut_head \<noteq> []" "\<not> is_space (last cut_head)"
    by (simp_all add: cut_head_def is_space_def)
  have eq: "cut_head = boot_line_0 @ CHR 0x0A # rest"
    by (simp add: cut_head_def rest_def filler_def piece_def)
  have nz: "bootRe \<noteq> []" by (simp add: bootRe_def tsRe_def)
  have p: "match_all bootRe piece = []"
    by (rule match_all_needs[where x="CHR '']''"]) (auto dest: bootRe_needs simp: piece_def)
  have f: "match_all bootRe filler = []" unfolding filler_def by (rule filler_no_match)
  have r: "match_all bootRe rest = []"
    unfolding rest_def match_all_cut[OF bootRe_no_newline nz] using p f by simp
  have "match_all bootRe cut_head = [boot_line_0]"
    unfolding eq match_all_cut[OF bootRe_no_newline nz]
    using r boot_line_facts(3)[OF boot_lines(1)] by simp
  then show ?thesis using match_all_trim[OF ne] by simp
qed

lemma cut_tail_matches: "match_all bootRe (trim cut_tail) = []"
proof -
  have "cut_tail \<noteq> []" "\<not> is_space (last cut_tail)"
    by (simp_all add: cut_tail_def is_space_def)
  then have "match_all bootRe (trim cut_tail) = match_all bootRe cut_tail" by (rule match_all_trim)
  also have "\<dots> = []"
    by (rule match_all_needs[where x="CHR ''T''"]) (auto dest: bootRe_needs simp: cut_tail_def)
  finally show ?thesis .
qed

lemma cut_log_matches: "match_all bootRe (trim cut_log) = [boot_line_0, boot_line_27]"
proof -
  define filler where "filler = replicate 65410 (CHR ''x'')"
  define earlier where "earlier = boot_line_0 @ CHR 0x0A # filler"
  have eq: "cut_log = earlier @ CHR 0x0A # boot_line_27"
    by (simp add: cut_log_def earlier_def filler_def)
  have nz: "bootRe \<noteq> []" by (simp add: bootRe_def tsRe_def)
  have f: "match_all bootRe filler = []" unfolding filler_def by (rule filler_no_match)
  have e: "match_all bootRe earlier = [boot_line_0]"
    unfolding earlier_def match_all_cut[OF bootRe_no_newline nz]
    using f boot_line_facts(3)[OF boot_lines(1)] by simp
  show ?thesis unfolding eq last_line_matches[OF boot_lines(2)] using e by simp
qed

lemma example_freshness:
  "\<not> fresh_boot_line example_date_parse 1569924030000 boot_line_0"
  "fresh_boot_line example_date_parse 1569924030000 boot_line_27"
  by (simp_all add: fresh_boot_line_def timestamp_of_def example_date_parse_def
      boot_line_0_def boot_line_27_def regex_defs)

lemma reversed_log_chunks: "chunks highWaterMark reversed_log = [reversed_head, reversed_tail]"
proof -
  have eq: "reversed_log = reversed_head @ reversed_tail"
    by (simp add: reversed_log_def reversed_head_def reversed_tail_def)
  have l: "length reversed_head = highWaterMark"
    by (simp add: reversed_head_def boot_line_lengths highWaterMark_def)
  have t: "reversed_tail \<noteq> []" "length reversed_tail \<le> highWaterMark"
    by (simp_all add: reversed_tail_def boot_line_lengths highWaterMark_def)
  show ?thesis unfolding eq by (rule chunks_two[OF l t])
qed

lemma reversed_head_matches: "match_all bootRe (trim reversed_head) = [boot_line_27]"
proof -
  define filler where "filler = replicate 65451 (CHR ''x'')"
  have ne: "reversed_head \<noteq> []" "\<not> is_space (last reversed_head)"
    by (simp_all add: reversed_head_def is_space_def)
  have eq: "reversed_head = boot_line_27 @ CHR 0x0A # filler"
    by (simp add: reversed_head_def filler_def)
  have nz: "bootRe \<noteq> []" by (simp add: bootRe_def tsRe_def)
  have f: "match_all bootRe filler = []" unfolding filler_def by (rule filler_no_match)
  have "match_all bootRe reversed_head = [boot_line_27]"
    unfolding eq match_all_cut[OF bootRe_no_newline nz]
    using f boot_line_facts(3)[OF boot_lines(2)] by simp
  then show ?thesis using match_all_trim[OF ne] by simp
qed

lemma reversed_tail_matches: "match_all bootRe (trim reversed_tail) = [boot_line_0]"
  using last_line_matches[OF boot_lines(1), of "[]"]
  by (simp add: reversed_tail_def bootRe_def tsRe_def)

lemma reversed_log_matches: "match_all bootRe (trim reversed_log) = [boot_line_27, boot_line_0]"
proof -
  define filler where "filler = replicate 65451 (CHR ''x'')"
  define earlier where "earlier = boot_line_27 @ CHR 0x0A # filler"
  have eq: "reversed_log = earlier @ CHR 0x0A # boot_line_0"
    by (simp add: reversed_log_def earlier_def filler_def)
  have nz: "bootRe \<noteq> []" by (simp add: bootRe_def tsRe_def)
  have f: "match_all bootRe filler = []" unfolding filler_def by (rule filler_no_match)
  have e: "match_all bootRe earlier = [boot_line_27]"
    unfolding earlier_def match_all_cut[OF bootRe_no_newline nz]
    using f boot_line_facts(3)[OF boot_lines(2)] by simp
  show ?thesis unfolding eq last_line_matches[OF boot_lines(1)] using e by simp
qed

lemma cut_log_not_resolved:
  "onChange example_date_parse (\<lambda>k. 1569924030000) cut_log \<lparr>watching = True, resolved = False\<rparr>
     = \<lparr>watching = True, resolved = False\<rparr>"
proof -
  have h: "onData example_date_parse 1569924030000 cut_head \<lparr>watching = True, resolved = False\<rparr>
     = \<lparr>watching = True, resolved = False\<rparr>"
    by (simp add: onData_resolves_iff_fresh cut_head_matches example_freshness)
  have t: "onData example_date_parse 1569924030000 cut_tail \<lparr>watching = True, resolved = False\<rparr>
     = \<lparr>watching = True, resolved = False\<rparr>"
    by (simp add: onData_resolves_iff_fresh cut_tail_matches)
  show ?thesis using h t cut_log_chunks by (simp add: onChange_def)
qed

lemma onChange_small_log:
  "content \<noteq> [] \<Longrightarrow> length content \<le> highWaterMark \<Longrightarrow>
   onChange date_parse clock content w =
     (let matches = match_all bootRe (trim content) in
      if matches \<noteq> [] \<and> fresh_boot_line date_parse (clock 0) (last matches)
      then w\<lparr>watching := False, resolved := True\<rparr> else w)"
  by (simp add: onChange_single_chunk onData_resolves_iff_fresh)

text \<open>
  Claim C1 (the code differs). The claim says that for every content of the log the watch
  resolves if and only if the last boot line is fresh, and the comment of line 501 says
  that the callback takes the last line of the file. The callback sees one chunk of the
  stream at a time. In \<open>cut_log\<close> the last boot line is 3 seconds old, and a scan of the
  whole content resolves; the boundary of the two chunks cuts that line, so no chunk
  holds it, the first chunk ends in the boot line that is 30 seconds old, and the watch
  does not resolve. (On a log of at most one chunk the watch does what the claim says:
  \<open>onChange_small_log\<close>.)
\<close>

theorem launchGeny_misses_cut_boot_line:
  "chunks highWaterMark cut_log = [cut_head, cut_tail] \<and>
   match_all bootRe (trim cut_log) = [boot_line_0, boot_line_27] \<and>
   fresh_boot_line example_date_parse 1569924030000 boot_line_27 \<and>
   onData example_date_parse 1569924030000 cut_log \<lparr>watching = True, resolved = False\<rparr>
     = \<lparr>watching = False, resolved = True\<rparr> \<and>
   match_all bootRe (trim cut_head) = [boot_line_0] \<and>
   match_all bootRe (trim cut_tail) = [] \<and>
   onChange example_date_parse (\<lambda>k. 1569924030000) cut_log \<lparr>watching = True, resolved = False\<rparr>
     = \<lparr>watching = True, resolved = False\<rparr>"
proof -
  have whole: "onData example_date_parse 1569924030000 cut_log \<lparr>watching = True, resolved = False\<rparr>
     = \<lparr>watching = False, resolved = True\<rparr>"
    by (simp add: onData_resolves_iff_fresh cut_log_matches example_freshness)
  show ?thesis
    using whole cut_log_chunks cut_log_matches cut_head_matches cut_tail_matches
      example_freshness cut_log_not_resolved
    by simp
qed

text \<open>
  Claim C5 (the code differs, by the same defect as for C1). The claim says that the last
  boot line of the log alone decides and that earlier boot lines are ignored. The
  callback decides on the last boot line of each chunk. In \<open>reversed_log\<close> the last boot
  line is 30 seconds old, and a scan of the whole content does not resolve; the first
  chunk ends in the earlier boot line, which is 3 seconds old, and the watch resolves on
  it. In \<open>cut_log\<close> the last boot line is fresh and cut by the boundary, and the watch is
  decided by the earlier, stale line of the first chunk.
\<close>

theorem launchGeny_resolves_on_earlier_chunk:
  "chunks highWaterMark reversed_log = [reversed_head, reversed_tail] \<and>
   match_all bootRe (trim reversed_log) = [boot_line_27, boot_line_0] \<and>
   \<not> fresh_boot_line example_date_parse 1569924030000 boot_line_0 \<and>
   onData example_date_parse 1569924030000 reversed_log \<lparr>watching = True, resolved = False\<rparr>
     = \<lparr>watching = True, resolved = False\<rparr> \<and>
   onChange example_date_parse (\<lambda>k. 1569924030000) reversed_log
       \<lparr>watching = True, resolved = False\<rparr>
     = \<lparr>watching = False, resolved = True\<rparr> \<and>
   last (match_all bootRe (trim cut_log)) = boot_line_27 \<and>
   fresh_boot_line example_date_parse 1569924030000 boot_line_27 \<and>
   onChange example_date_parse (\<lambda>k. 1569924030000) cut_log \<lparr>watching = True, resolved = False\<rparr>
     = \<lparr>watching = True, resolved = False\<rparr>"
proof -
  have whole: "onData example_date_parse 1569924030000 reversed_log \<lparr>watching = True, resolved = False\<rparr>
     = \<lparr>watching = True, resolved = False\<rparr>"
    by (simp add: onData_resolves_iff_fresh reversed_log_matches example_freshness)
  have h: "onData example_date_parse 1569924030000 reversed_head \<lparr>watching = True, resolved = False\<rparr>
     = \<lparr>watching = False, resolved = True\<rparr>"
    by (simp add: onData_resolves_iff_fresh reversed_head_matches example_freshness)
  have t: "onData example_date_parse 1569924030000 reversed_tail \<lparr>watching = False, resolved = True\<rparr>
     = \<lparr>watching = False, resolved = True\<rparr>"
    by (simp add: onData_resolves_iff_fresh reversed_tail_matches example_freshness)
  have r: "onChange example_date_parse (\<lambda>k. 1569924030000) reversed_log
       \<lparr>watching = True, resolved = False\<rparr> = \<lparr>watching = False, resolved = True\<rparr>"
    using h t reversed_log_chunks by (simp add: onChange_def)
  show ?thesis
    using whole r reversed_log_chunks reversed_log_matches example_freshness cut_log_matches
      cut_log_not_resolved
    by simp
qed

section \<open>The suite resolver appends to the requested list, and never returns an empty one\<close>

lemma js_split_not_Nil: "js_split d s \<noteq> []"
  by (induction s) (auto split: list.splits)

lemma js_slice_butlast: "js_slice s 0 (int (length s) - 1) = butlast s"
proof (cases "s = []")
  case True
  then show ?thesis by (simp add: js_slice_def)
next
  case False
  then have "int (length s) - 1 \<ge> 0" by (cases s) auto
  then show ?thesis using False
    by (simp add: js_slice_def Let_def butlast_conv_take min_def nat_diff_distrib')
qed

lemma add_suite_append:
  "foldl (add_suite h platformArg p) (a @ acc) ks = a @ foldl (add_suite h platformArg p) acc ks"
  by (induction ks arbitrary: acc) (simp_all add: add_suite_def)

lemma enumerate_suites_append:
  "enumerate_suites h configTests platformArg (a @ acc) =
     a @ enumerate_suites h configTests platformArg acc"
  unfolding enumerate_suites_def
  by (induction configTests arbitrary: acc) (auto simp: add_suite_append)

lemma suite_files_requested:
  "suite_files h configTests (Some (c # cs)) platformArg =
     js_split CHR '','' (butlast ((c # cs) @ enumerate_suites h configTests platformArg []))"
  using enumerate_suites_append[of h configTests platformArg "c # cs" "[]"]
  by (simp add: suite_files_def truthy_def Let_def js_slice_butlast)

lemma transform_loop_length:
  "transform_loop h appArg files acc = Inr r \<Longrightarrow> length r = length acc + length files"
  by (induction files arbitrary: acc) (auto split: sum.splits)

lemma transform_not_empty: "transform h configTests appArg suiteArg platformArg \<noteq> Inr []"
proof
  assume "transform h configTests appArg suiteArg platformArg = Inr []"
  then have "length (suite_files h configTests suiteArg platformArg) = 0"
    unfolding transform_def using transform_loop_length by fastforce
  moreover have "suite_files h configTests suiteArg platformArg \<noteq> []"
    by (simp add: suite_files_def Let_def js_split_not_Nil)
  ultimately show False by simp
qed

lemma transform_nothing_selected:
  assumes "enumerate_suites h configTests platformArg [] = []"
  shows "transform h configTests appArg None platformArg =
           (if stat_ok h (path_join h [TEST_DIR, appArg, []]) then Inl TypeError
            else Inl (ProcessExit 1))"
  using assms
  by (simp add: transform_def suite_files_def truthy_def js_slice_def resolve_file_def)

lemma ex_suite_files: "suite_files example_host example_config (Some ''login/android.js'') None =
     [''login/android.jslogin/android.js'', ''signup/android.js'', ''login/ios.js'']"
  by (simp add: suite_files_requested enumerate_suites_def example_config_def keys_of_def
      add_suite_def truthy_def sep_def example_host_def example_suite_def)

lemma ex_suite_files2: "suite_files example_host example_config (Some ''login/android.js'') (Some ''windows'') =
     [''login/android.j'']"
  by (simp add: suite_files_requested enumerate_suites_def example_config_def keys_of_def
      add_suite_def truthy_def sep_def example_host_def example_suite_def)

lemma posix_join_simps:
  "posix_join [''ui-tests'', ''demo'', ''login/android.jslogin/android.js''] = ''ui-tests/demo/login/android.jslogin/android.js''"
  "posix_join [''ui-tests'', ''demo'', []] = ''ui-tests/demo''"
  by (simp_all add: posix_join_def)

lemma ex_transform: "transform example_host example_config ''demo'' (Some ''login/android.js'') None = Inl (ProcessExit 1)"
proof -
  have "\<not> stat_ok example_host (path_join example_host [TEST_DIR, ''demo'', ''login/android.jslogin/android.js''])"
    by (simp add: example_host_def TEST_DIR_def posix_join_simps)
  then have "resolve_file example_host ''demo'' ''login/android.jslogin/android.js'' = Inl (ProcessExit 1)"
    by (simp add: resolve_file_def)
  then show ?thesis
    by (simp add: transform_def ex_suite_files)
qed

lemma ex_transform2: "transform example_host example_config ''demo'' None (Some ''windows'') = Inl TypeError"
proof -
  have "enumerate_suites example_host example_config (Some ''windows'') [] = []"
    by (simp add: enumerate_suites_def example_config_def keys_of_def
      add_suite_def truthy_def sep_def example_host_def example_suite_def)
  from transform_nothing_selected[OF this, of "''demo''"] show ?thesis
    by (simp add: example_host_def TEST_DIR_def posix_join_simps)
qed

lemma posix_join_files:
  "posix_join [''ui-tests'', ''demo'', ''login/android.js''] = ''ui-tests/demo/login/android.js''"
  "posix_join [''ui-tests'', ''demo'', ''signup/android.js''] = ''ui-tests/demo/signup/android.js''"
  "posix_join [''ui-tests'', ''demo'', ''login/ios.js''] = ''ui-tests/demo/login/ios.js''"
  "posix_join [''/repo/lib'', ''..'', ''ui-tests'', ''demo'', ''login/android.js''] = ''/repo/ui-tests/demo/login/android.js''"
  "posix_join [''/repo/lib'', ''..'', ''ui-tests'', ''demo'', ''signup/android.js''] = ''/repo/ui-tests/demo/signup/android.js''"
  "posix_join [''/repo/lib'', ''..'', ''ui-tests'', ''demo'', ''login/ios.js''] = ''/repo/ui-tests/demo/login/ios.js''"
  by (simp_all add: posix_join_def)

lemma example_all_suites:
  "suite_files example_host example_config None None =
     [''login/android.js'', ''signup/android.js'', ''login/ios.js'']"
  by (simp add: suite_files_def js_slice_butlast enumerate_suites_def example_config_def keys_of_def
      add_suite_def truthy_def sep_def example_host_def example_suite_def)

lemma example_resolved:
  "transform example_host example_config ''demo'' None None = Inr example_targets"
proof -
  have "resolve_file example_host ''demo'' ''login/android.js'' = Inr (example_targets ! 0)"
    "resolve_file example_host ''demo'' ''signup/android.js'' = Inr (example_targets ! 1)"
    "resolve_file example_host ''demo'' ''login/ios.js'' = Inr (example_targets ! 2)"
    by (simp_all add: resolve_file_def getAbsolutePath_def TEST_DIR_def sep_def example_host_def
        posix_join_files js_slice_def example_targets_def)
  then show ?thesis
    by (simp add: transform_def example_all_suites example_targets_def)
qed


text \<open>
  Claim C3 (the code differs). The claim says that a requested suite list is used as it
  is, and that the pairs of the configuration are enumerated only when nothing is
  requested; so does the comment above \<open>transform\<close> (lines 46 and 47). The loops of
  lines 65 to 75 run in both cases: the files are the pieces of the requested string,
  followed without a comma by the enumerated pairs, less the last character. With the
  suite \<open>login/android.js\<close> requested, which exists and splits to itself, the first
  file is \<open>login/android.jslogin/android.js\<close> and the run ends in \<open>process.exit(1)\<close>.
\<close>

theorem transform_appends_to_requested:
  "suite_files h configTests (Some (c # cs)) platformArg =
     js_split CHR '','' (butlast ((c # cs) @ enumerate_suites h configTests platformArg [])) \<and>
   js_split CHR '','' ''login/android.js'' = [''login/android.js''] \<and>
   stat_ok example_host (path_join example_host [TEST_DIR, ''demo'', ''login/android.js'']) \<and>
   suite_files example_host example_config (Some ''login/android.js'') None =
     [''login/android.jslogin/android.js'', ''signup/android.js'', ''login/ios.js''] \<and>
   transform example_host example_config ''demo'' (Some ''login/android.js'') None
     = Inl (ProcessExit 1)"
proof -
  have "stat_ok example_host (path_join example_host [TEST_DIR, ''demo'', ''login/android.js''])"
    by (simp add: example_host_def TEST_DIR_def posix_join_files)
  then show ?thesis
    using suite_files_requested ex_suite_files ex_transform by simp
qed

text \<open>
  Claim C4 (the code differs). The claim says that a selection that leaves no pair gives an
  empty list of targets and no error. \<open>transform\<close> never returns an empty list: the
  empty string splits to one empty file name, and for it either \<open>fs.statSync\<close> fails and
  the run ends in \<open>process.exit(1)\<close>, or the path is the directory of the application,
  \<open>parts[1]\<close> is \<open>undefined\<close> and reading its length throws a \<open>TypeError\<close>. The
  configuration of the example filtered by the platform \<open>windows\<close> ends in the
  \<open>TypeError\<close>.
\<close>

theorem transform_empty_selection_fails:
  "transform h configTests appArg suiteArg platformArg \<noteq> Inr [] \<and>
   transform h [] appArg None platformArg =
     (if stat_ok h (path_join h [TEST_DIR, appArg, []]) then Inl TypeError
      else Inl (ProcessExit 1)) \<and>
   enumerate_suites example_host example_config (Some ''windows'') [] = [] \<and>
   suite_files example_host example_config None (Some ''windows'') = [[]] \<and>
   transform example_host example_config ''demo'' None (Some ''windows'') = Inl TypeError"
proof -
  have e: "enumerate_suites example_host example_config (Some ''windows'') [] = []"
    by (simp add: enumerate_suites_def example_config_def keys_of_def
      add_suite_def truthy_def sep_def example_host_def example_suite_def)
  then have f: "suite_files example_host example_config None (Some ''windows'') = [[]]"
    by (simp add: suite_files_def truthy_def js_slice_def)
  have "enumerate_suites h [] platformArg [] = []" by (simp add: enumerate_suites_def)
  from transform_nothing_selected[OF this] transform_not_empty e f ex_transform2
  show ?thesis by simp
qed


section \<open>The server handle\<close>

text \<open>
  Claim C10. When the module is loaded the server handle is \<open>null\<close>, and \<open>killAppium\<close>
  called then throws a \<open>TypeError\<close> on either operating system; it throws exactly when
  the handle is \<open>null\<close>, and after \<open>runAppium\<close> has spawned the server it returns.
\<close>

theorem killAppium_needs_runAppium:
  "killAppium h module_init = Inl TypeError \<and>
   (killAppium h g = Inl TypeError \<longleftrightarrow> appiumProc g = None) \<and>
   (\<exists>g'. killAppium h (runAppium h new_pid g) = Inr g')"
  by (auto simp: killAppium_def module_init_def runAppium_def Let_def split: option.splits prod.splits)


section \<open>The steps of the build pipeline\<close>

lemma spawns_append: "spawns (xs @ ys) = spawns xs @ spawns ys"
  by (induction xs rule: spawns.induct) simp_all

lemma changes_append: "changes (xs @ ys) = changes xs @ changes ys"
  by (induction xs rule: changes.induct) simp_all

lemma procs_append: "procs (xs @ ys) = procs xs @ procs ys"
  by (simp add: procs_def)

lemma closed_sequential_append: "closed xs \<Longrightarrow> sequential (xs @ ys) = sequential ys"
  by (induction xs rule: closed.induct) simp_all

lemma closed_append: "closed xs \<Longrightarrow> closed (xs @ ys) = closed ys"
  by (induction xs rule: closed.induct) simp_all

lemma appc_result:
  "appc h flags s =
     (case proc_end h (spawned s) of
        Exits code \<Rightarrow>
          (True, s\<lparr>trace := trace s @ [Spawn (fst (appc_command h flags)) (snd (appc_command h flags)), Exit code],
                   spawned := Suc (spawned s)\<rparr>)
      | NeverExits \<Rightarrow>
          (False, s\<lparr>trace := trace s @ [Spawn (fst (appc_command h flags)) (snd (appc_command h flags))],
                    spawned := Suc (spawned s)\<rparr>))"
  by (simp add: appc_def Let_def split: prod.splits proc_end.splits)

lemma appc_cases:
  obtains (exits) code where "proc_end h (spawned s) = Exits code"
      "appc h flags s = (True, s\<lparr>trace := trace s @ [Spawn (fst (appc_command h flags)) (snd (appc_command h flags)), Exit code],
                   spawned := Suc (spawned s)\<rparr>)"
  | (never) "proc_end h (spawned s) = NeverExits"
      "appc h flags s = (False, s\<lparr>trace := trace s @ [Spawn (fst (appc_command h flags)) (snd (appc_command h flags))],
                    spawned := Suc (spawned s)\<rparr>)"
  by (cases "proc_end h (spawned s)") (simp_all add: appc_result)

lemma patch_step_cases:
  obtains (unknown) "suite_of configTests (platform t) (name t) = None"
      "patch_step h configTests app t s = (Inl TypeError, s)"
  | (skip) pc sc where "suite_of configTests (platform t) (name t) = Some (pc, sc)"
      "tiappMod_get s (proj sc)"
      "patch_step h configTests app t s = (Inr (project_dir h app t (proj sc)), s)"
  | (change) pc sc r where "suite_of configTests (platform t) (name t) = Some (pc, sc)"
      "\<not> tiappMod_get s (proj sc)"
      "patch_step h configTests app t s =
         (r, s\<lparr>tiappMod := proj sc # tiappMod s,
               trace := trace s @ [Change (proj sc) (path_join h [project_dir h app t (proj sc), ''tiapp.xml''])]\<rparr>)"
      "r = (case change_error h (path_join h [project_dir h app t (proj sc), ''tiapp.xml'']) of
              Some e \<Rightarrow> Inl e | None \<Rightarrow> Inr (project_dir h app t (proj sc)))"
proof (cases "suite_of configTests (platform t) (name t)")
  case None
  then show ?thesis using unknown by (simp add: patch_step_def)
next
  case (Some a)
  obtain pc sc where a: "a = (pc, sc)" by (cases a)
  show ?thesis
  proof (cases "tiappMod_get s (proj sc)")
    case True
    then show ?thesis using skip[of pc sc] Some a by (simp add: patch_step_def Let_def)
  next
    case False
    then show ?thesis using change[of pc sc] Some a
      by (simp add: patch_step_def Let_def split: option.splits)
  qed
qed

lemma target_plan_known:
  "suite_of configTests (platform t) (name t) = Some (pc, sc) \<Longrightarrow>
   target_plan h configTests app t =
     [appc_command h (clean_flags t (project_dir h app t (proj sc))),
      appc_command h (build_flags t (project_dir h app t (proj sc)))]"
  by (simp add: target_plan_def)

lemma patch_step_trace:
  assumes "patch_step h configTests app t s = (r, s1)"
  obtains ext where "trace s1 = trace s @ ext" "procs ext = []" "spawns ext = []"
    "spawned s1 = spawned s"
  using assms
  by (cases rule: patch_step_cases[where h=h and configTests=configTests and t=t and s=s and app=app]) (auto simp: procs_def)

lemma patch_step_Inr:
  assumes "patch_step h configTests app t s = (Inr dir, s1)"
  obtains pc sc where "suite_of configTests (platform t) (name t) = Some (pc, sc)"
    "dir = project_dir h app t (proj sc)"
  using assms
  by (cases rule: patch_step_cases[where h=h and configTests=configTests and t=t and s=s and app=app]) (auto split: option.splits)

lemma chain_trace:
  "chain h configTests app suites s = (out, s') \<Longrightarrow>
   \<exists>ext. trace s' = trace s @ ext \<and> sequential (procs ext) \<and>
         (out \<noteq> Pending \<longrightarrow> closed (procs ext)) \<and>
         prefix (spawns ext) (concat (map (target_plan h configTests app) suites)) \<and>
         (out = Completed \<longrightarrow>
            spawns ext = concat (map (target_plan h configTests app) suites) \<and>
            list_all (known_target configTests) suites)"
proof (induction suites arbitrary: s)
  case Nil
  then have "trace s' = trace s @ [Done]" by auto
  then show ?case by (auto simp: procs_def)
next
  case (Cons t suites)
  obtain r s1 where ps: "patch_step h configTests app t s = (r, s1)" by fastforce
  from ps obtain e0 where e0: "trace s1 = trace s @ e0" "procs e0 = []" "spawns e0 = []"
    by (rule patch_step_trace)
  show ?case
  proof (cases r)
    case (Inl e)
    with ps Cons.prems have "out = Rejected e" "s' = s1" by auto
    with e0 show ?thesis by auto
  next
    case (Inr dir)
    from ps Inr obtain pc sc where known: "suite_of configTests (platform t) (name t) = Some (pc, sc)"
      and dir: "dir = project_dir h app t (proj sc)"
      by (auto elim: patch_step_Inr)
    note tp = target_plan_known[OF known, of h app]
    let ?c = "appc_command h (clean_flags t dir)"
    let ?b = "appc_command h (build_flags t dir)"
    show ?thesis
    proof (cases rule: appc_cases[where h=h and s=s1 and flags="clean_flags t dir"])
      case never
      with ps Inr Cons.prems have "out = Pending" 
        "trace s' = trace s @ e0 @ [Spawn (fst ?c) (snd ?c)]"
        using e0 by auto
      then show ?thesis using e0 tp dir
        by (intro exI[of _ "e0 @ [Spawn (fst ?c) (snd ?c)]"]) (simp add: procs_append spawns_append procs_def)
    next
      case (exits c1)
      define s2 where "s2 = s1\<lparr>trace := trace s1 @ [Spawn (fst ?c) (snd ?c), Exit c1], spawned := Suc (spawned s1)\<rparr>"
      have a1: "appc h (clean_flags t dir) s1 = (True, s2)" using exits by (simp add: s2_def)
      have t2: "trace s2 = trace s @ e0 @ [Spawn (fst ?c) (snd ?c), Exit c1]" using e0 by (simp add: s2_def)
      show ?thesis
      proof (cases rule: appc_cases[where h=h and s=s2 and flags="build_flags t dir"])
        case never
        with ps Inr a1 Cons.prems have "out = Pending" 
          "trace s' = trace s @ e0 @ [Spawn (fst ?c) (snd ?c), Exit c1, Spawn (fst ?b) (snd ?b)]"
          using t2 by auto
        then show ?thesis using e0 tp dir
          by (intro exI[of _ "e0 @ [Spawn (fst ?c) (snd ?c), Exit c1, Spawn (fst ?b) (snd ?b)]"])
             (simp add: procs_append spawns_append procs_def)
      next
        case (exits c2)
        define s3 where "s3 = s2\<lparr>trace := trace s2 @ [Spawn (fst ?b) (snd ?b), Exit c2], spawned := Suc (spawned s2)\<rparr>"
        have a2: "appc h (build_flags t dir) s2 = (True, s3)" using exits by (simp add: s3_def)
        let ?e1 = "e0 @ [Spawn (fst ?c) (snd ?c), Exit c1, Spawn (fst ?b) (snd ?b), Exit c2]"
        have t3: "trace s3 = trace s @ ?e1" using t2 by (simp add: s3_def)
        from ps Inr a1 a2 Cons.prems have "chain h configTests app suites s3 = (out, s')" by simp
        from Cons.IH[OF this] obtain ext where ext: "trace s' = trace s3 @ ext" "sequential (procs ext)"
          "out \<noteq> Pending \<longrightarrow> closed (procs ext)"
          "prefix (spawns ext) (concat (map (target_plan h configTests app) suites))"
          "out = Completed \<longrightarrow>
            spawns ext = concat (map (target_plan h configTests app) suites) \<and>
            list_all (known_target configTests) suites"
          by blast
        have p1: "procs (?e1 @ ext) = [Spawn (fst ?c) (snd ?c), Exit c1, Spawn (fst ?b) (snd ?b), Exit c2] @ procs ext"
          using e0 by (simp add: procs_append) (simp add: procs_def)
        have sp1: "spawns (?e1 @ ext) = target_plan h configTests app t @ spawns ext"
          using e0 tp dir by (simp add: spawns_append)
        have "trace s' = trace s @ (?e1 @ ext)" using ext(1) t3 by simp
        moreover have "sequential (procs (?e1 @ ext))" unfolding p1 using ext(2) by simp
        moreover have "out \<noteq> Pending \<longrightarrow> closed (procs (?e1 @ ext))" unfolding p1 using ext(3) by simp
        moreover have "prefix (spawns (?e1 @ ext)) (concat (map (target_plan h configTests app) (t # suites)))"
          unfolding sp1 using ext(4) by simp
        moreover have "out = Completed \<longrightarrow>
            spawns (?e1 @ ext) = concat (map (target_plan h configTests app) (t # suites)) \<and>
            list_all (known_target configTests) (t # suites)"
          unfolding sp1 using ext(5) known by (simp add: known_target_def)
        ultimately show ?thesis by blast
      qed
    qed
  qed
qed

lemma chain_completes:
  "(\<forall>k. proc_end h k \<noteq> NeverExits) \<Longrightarrow> (\<forall>file. change_error h file = None) \<Longrightarrow>
   list_all (known_target configTests) suites \<Longrightarrow> fst (chain h configTests app suites s) = Completed"
proof (induction suites arbitrary: s)
  case Nil
  then show ?case by simp
next
  case (Cons t suites)
  from Cons.prems(3) obtain pc sc where known: "suite_of configTests (platform t) (name t) = Some (pc, sc)"
    by (auto simp: known_target_def)
  obtain s1 where ps: "patch_step h configTests app t s = (Inr (project_dir h app t (proj sc)), s1)"
    using known Cons.prems(2) by (cases rule: patch_step_cases[where h=h and configTests=configTests and t=t and s=s and app=app]) auto
  let ?dir = "project_dir h app t (proj sc)"
  obtain s2 where a1: "appc h (clean_flags t ?dir) s1 = (True, s2)"
    using Cons.prems(1) by (cases rule: appc_cases[where h=h and s=s1 and flags="clean_flags t ?dir"]) auto
  obtain s3 where a2: "appc h (build_flags t ?dir) s2 = (True, s3)"
    using Cons.prems(1) by (cases rule: appc_cases[where h=h and s=s2 and flags="build_flags t ?dir"]) auto
  show ?case using ps a1 a2 Cons.IH[of s3] Cons.prems by simp
qed


section \<open>The memo of rewritten projects\<close>

lemma appc_memo: "appc h flags s = (b, s') \<Longrightarrow> memo_ok s' = memo_ok s \<and> tiappMod s' = tiappMod s"
  by (cases rule: appc_cases[where h=h and s=s and flags=flags])
     (auto simp: memo_ok_def changes_append)

lemma patch_step_memo: "patch_step h configTests app t s = (r, s') \<Longrightarrow> memo_ok s \<Longrightarrow> memo_ok s'"
  by (cases rule: patch_step_cases[where h=h and configTests=configTests and t=t and s=s and app=app])
     (auto simp: memo_ok_def changes_append tiappMod_get_def)

lemma patch_step_keys:
  "patch_step h configTests app t s = (Inr dir, s') \<Longrightarrow>
   \<exists>p. project_of configTests t = Some p \<and>
       set (tiappMod s') = set (tiappMod s) \<union> (if p \<in> set Object_prototype_keys then {} else {p})"
  by (cases rule: patch_step_cases[where h=h and configTests=configTests and t=t and s=s and app=app])
     (auto simp: project_of_def tiappMod_get_def split: option.splits)

lemma chain_memo:
  "chain h configTests app suites s = (out, s') \<Longrightarrow> memo_ok s \<Longrightarrow> memo_ok s'"
proof (induction suites arbitrary: s)
  case Nil
  then show ?case by (auto simp: memo_ok_def changes_append)
next
  case (Cons t suites)
  obtain r s1 where ps: "patch_step h configTests app t s = (r, s1)" by fastforce
  from patch_step_memo[OF ps Cons.prems(2)] have m1: "memo_ok s1" .
  show ?case
  proof (cases r)
    case (Inl e)
    with ps Cons.prems(1) m1 show ?thesis by auto
  next
    case (Inr dir)
    obtain b2 s2 where a1: "appc h (clean_flags t dir) s1 = (b2, s2)" by fastforce
    obtain b3 s3 where a2: "appc h (build_flags t dir) s2 = (b3, s3)" by fastforce
    from appc_memo[OF a1] m1 have m2: "memo_ok s2" by simp
    from appc_memo[OF a2] m2 have m3: "memo_ok s3" by simp
    show ?thesis
    proof (cases "b2 \<and> b3")
      case True
      with ps Inr a1 a2 Cons.prems(1) have "chain h configTests app suites s3 = (out, s')" by simp
      from Cons.IH[OF this m3] show ?thesis .
    next
      case False
      with ps Inr a1 a2 Cons.prems(1) m2 m3 show ?thesis by (cases b2; cases b3) auto
    qed
  qed
qed

lemma chain_keys:
  "chain h configTests app suites s = (Completed, s') \<Longrightarrow>
   set (tiappMod s') =
     set (tiappMod s) \<union> {p. Some p \<in> project_of configTests ` set suites \<and> p \<notin> set Object_prototype_keys}"
proof (induction suites arbitrary: s)
  case Nil
  then show ?case by auto
next
  case (Cons t suites)
  obtain r s1 where ps: "patch_step h configTests app t s = (r, s1)" by fastforce
  show ?case
  proof (cases r)
    case (Inl e)
    with ps Cons.prems show ?thesis by auto
  next
    case (Inr dir)
    obtain b2 s2 where a1: "appc h (clean_flags t dir) s1 = (b2, s2)" by fastforce
    obtain b3 s3 where a2: "appc h (build_flags t dir) s2 = (b3, s3)" by fastforce
    from ps Inr obtain p where p: "project_of configTests t = Some p"
      "set (tiappMod s1) = set (tiappMod s) \<union> (if p \<in> set Object_prototype_keys then {} else {p})"
      using patch_step_keys by blast
    have k3: "tiappMod s3 = tiappMod s1" using appc_memo[OF a1] appc_memo[OF a2] by simp
    show ?thesis
    proof (cases "b2 \<and> b3")
      case True
      with ps Inr a1 a2 Cons.prems have "chain h configTests app suites s3 = (Completed, s')" by simp
      from Cons.IH[OF this] show ?thesis using k3 p by (auto split: if_splits)
    next
      case False
      with ps Inr a1 a2 Cons.prems show ?thesis by (cases b2; cases b3) auto
    qed
  qed
qed

lemma buildTestApps_memo: "memo_ok (snd (buildTestApps h configTests app suites tiSdk))"
proof (cases "truthy tiSdk")
  case False
  then show ?thesis by (simp add: buildTestApps_def memo_ok_def)
next
  case True
  let ?s0 = "\<lparr>tiappMod = [], trace = [], spawned = 0\<rparr>"
  obtain b s1 where a: "appc h (select_flags (the tiSdk)) ?s0 = (b, s1)" by fastforce
  have m0: "memo_ok ?s0" by (simp add: memo_ok_def)
  from appc_memo[OF a] m0 have m1: "memo_ok s1" by simp
  show ?thesis
  proof (cases b)
    case False
    with True a m1 show ?thesis by (simp add: buildTestApps_def)
  next
    case b: True
    obtain out s' where c: "chain h configTests app suites s1 = (out, s')" by fastforce
    from chain_memo[OF c m1] True a b c show ?thesis by (simp add: buildTestApps_def)
  qed
qed

lemma buildTestApps_changes_distinct:
  "distinct (map fst (changes (trace (snd (buildTestApps h configTests app suites tiSdk)))))"
  using buildTestApps_memo[of h configTests app suites tiSdk] by (simp add: memo_ok_def)

lemma buildTestApps_changed_projects:
  assumes "buildTestApps h configTests app suites (Some (c # cs)) = (Completed, s)"
  shows "set (map fst (changes (trace s))) =
           {p. Some p \<in> project_of configTests ` set suites \<and> p \<notin> set Object_prototype_keys}"
proof -
  let ?s0 = "\<lparr>tiappMod = [], trace = [], spawned = 0\<rparr>"
  obtain b s1 where a: "appc h (select_flags (c # cs)) ?s0 = (b, s1)" by fastforce
  from assms a have b: "b" and ch: "chain h configTests app suites s1 = (Completed, s)"
    by (cases b; simp add: buildTestApps_def truthy_def)+
  have "tiappMod s1 = []" using appc_memo[OF a] by simp
  with chain_keys[OF ch] have "set (tiappMod s) =
      {p. Some p \<in> project_of configTests ` set suites \<and> p \<notin> set Object_prototype_keys}" by simp
  moreover have "memo_ok s" using buildTestApps_memo[of h configTests app suites "Some (c # cs)"] assms by simp
  ultimately show ?thesis by (simp add: memo_ok_def)
qed

lemmas build_defs = buildTestApps_def appc_def appc_command_def spawnConvert_def
  patch_step_def suite_of_def tiappMod_get_def Object_prototype_keys_def project_dir_def
  getAbsolutePath_def TEST_DIR_def select_flags_def clean_flags_def build_flags_def truthy_def
  example_suite_def example_targets_def Let_def

lemma example_host_simps:
  "win32 example_host = False" "dirname example_host = ''/repo/lib''"
  "path_join example_host = posix_join" "change_error example_host f = None"
  "proc_end example_host k = Exits 0"
  by (simp_all add: example_host_def)

lemma posix_join_examples:
  "posix_join [''login'', ''constructor''] = ''login/constructor''"
  "posix_join [''login'', ''demoapp''] = ''login/demoapp''"
  "posix_join [''signup'', ''signupapp''] = ''signup/signupapp''"
  "posix_join [''/repo/lib'', ''..'', ''ui-tests'', ''demo'', ''login/constructor''] = ''/repo/ui-tests/demo/login/constructor''"
  "posix_join [''/repo/lib'', ''..'', ''ui-tests'', ''demo'', ''login/demoapp''] = ''/repo/ui-tests/demo/login/demoapp''"
  "posix_join [''/repo/lib'', ''..'', ''ui-tests'', ''demo'', ''signup/signupapp''] = ''/repo/ui-tests/demo/signup/signupapp''"
  "posix_join [''/repo/ui-tests/demo/signup/signupapp'', ''tiapp.xml''] = ''/repo/ui-tests/demo/signup/signupapp/tiapp.xml''"
  "posix_join [''/repo/ui-tests/demo/login/demoapp'', ''tiapp.xml''] = ''/repo/ui-tests/demo/login/demoapp/tiapp.xml''"
  by (simp_all add: posix_join_def)

lemma run_prototype:
  "fst (buildTestApps example_host prototype_config ''demo'' example_targets (Some ''8.0.0.GA'')) = Completed"
  "changes (trace (snd (buildTestApps example_host prototype_config ''demo'' example_targets (Some ''8.0.0.GA''))))
     = [(''signupapp'', ''/repo/ui-tests/demo/signup/signupapp/tiapp.xml'')]"
  by (simp_all add: build_defs prototype_config_def example_host_simps posix_join_examples)

lemma run_example:
  "changes (trace (snd (buildTestApps example_host example_config ''demo'' example_targets (Some ''8.0.0.GA''))))
     = [(''demoapp'', ''/repo/ui-tests/demo/login/demoapp/tiapp.xml''), (''signupapp'', ''/repo/ui-tests/demo/signup/signupapp/tiapp.xml'')]"
  by (simp_all add: build_defs example_config_def example_host_simps posix_join_examples)


section \<open>The order of the steps\<close>

lemma buildTestApps_trace:
  assumes "buildTestApps h configTests app suites (Some (c # cs)) = (out, s)"
  shows "prefix (spawns (trace s)) (plan h configTests app suites (c # cs))"
    "spawns (trace s) \<noteq> []"
    "sequential (procs (trace s))"
    "out = Completed \<longrightarrow> spawns (trace s) = plan h configTests app suites (c # cs) \<and>
        list_all (known_target configTests) suites"
proof -
  let ?s0 = "\<lparr>tiappMod = [], trace = [], spawned = 0\<rparr>"
  let ?sel = "appc_command h (select_flags (c # cs))"
  have goal: "prefix (spawns (trace s)) (plan h configTests app suites (c # cs)) \<and>
    spawns (trace s) \<noteq> [] \<and> sequential (procs (trace s)) \<and>
    (out = Completed \<longrightarrow> spawns (trace s) = plan h configTests app suites (c # cs) \<and>
        list_all (known_target configTests) suites)"
  proof (cases rule: appc_cases[where h=h and s="?s0" and flags="select_flags (c # cs)"])
    case never
    with assms have "out = Pending" "trace s = [Spawn (fst ?sel) (snd ?sel)]"
      by (auto simp: buildTestApps_def truthy_def)
    then show ?thesis by (simp add: plan_def procs_def)
  next
    case (exits code)
    define s1 where "s1 = ?s0\<lparr>trace := trace ?s0 @ [Spawn (fst ?sel) (snd ?sel), Exit code], spawned := Suc (spawned ?s0)\<rparr>"
    from exits assms have "chain h configTests app suites s1 = (out, s)"
      by (simp add: buildTestApps_def truthy_def s1_def)
    from chain_trace[OF this] obtain ext where ext: "trace s = trace s1 @ ext" "sequential (procs ext)"
      "prefix (spawns ext) (concat (map (target_plan h configTests app) suites))"
      "out = Completed \<longrightarrow>
            spawns ext = concat (map (target_plan h configTests app) suites) \<and>
            list_all (known_target configTests) suites"
      by blast
    have t: "trace s = [Spawn (fst ?sel) (snd ?sel), Exit code] @ ext" using ext(1) by (simp add: s1_def)
    have "procs (trace s) = [Spawn (fst ?sel) (snd ?sel), Exit code] @ procs ext"
      unfolding t procs_append by (simp add: procs_def)
    moreover have "spawns (trace s) = ?sel # spawns ext" unfolding t by simp
    ultimately show ?thesis using ext(2,3,4) by (simp add: plan_def)
  qed
  from goal show "prefix (spawns (trace s)) (plan h configTests app suites (c # cs))"
    "spawns (trace s) \<noteq> []"
    "sequential (procs (trace s))"
    "out = Completed \<longrightarrow> spawns (trace s) = plan h configTests app suites (c # cs) \<and>
        list_all (known_target configTests) suites" by blast+
qed

lemma buildTestApps_completes:
  assumes "\<forall>k. proc_end h k \<noteq> NeverExits" "\<forall>file. change_error h file = None"
    "list_all (known_target configTests) suites"
  shows "fst (buildTestApps h configTests app suites tiSdk) = Completed"
proof (cases "truthy tiSdk")
  case False
  then show ?thesis by (simp add: buildTestApps_def)
next
  case True
  let ?s0 = "\<lparr>tiappMod = [], trace = [], spawned = 0\<rparr>"
  obtain s1 where "appc h (select_flags (the tiSdk)) ?s0 = (True, s1)"
    using assms(1) by (cases rule: appc_cases[where h=h and s="?s0" and flags="select_flags (the tiSdk)"]) auto
  then show ?thesis using True chain_completes[OF assms, of app s1] by (simp add: buildTestApps_def)
qed

text \<open>
  Claim C6. With an SDK version given, the commands a run spawns are, in order, an initial
  part of the plan: the selection of the SDK, then for each target in the order of the
  list its clean step followed by its build step. At least the selection is spawned. The
  process events are strictly sequential: every process exits before the next is spawned.
  A run that completes has spawned the whole plan, and a run completes when every process
  exits, no rewriting of a \<open>tiapp.xml\<close> throws and every target is a suite of the
  configuration.
\<close>

theorem buildTestApps_steps_in_order:
  "(let (out, s) = buildTestApps h configTests app suites (Some (c # cs)) in
      prefix (spawns (trace s)) (plan h configTests app suites (c # cs)) \<and>
      spawns (trace s) \<noteq> [] \<and>
      sequential (procs (trace s)) \<and>
      (out = Completed \<longrightarrow>
         spawns (trace s) = plan h configTests app suites (c # cs) \<and>
         list_all (known_target configTests) suites)) \<and>
   ((\<forall>k. proc_end h k \<noteq> NeverExits) \<and> (\<forall>file. change_error h file = None) \<and>
    list_all (known_target configTests) suites \<longrightarrow>
      fst (buildTestApps h configTests app suites (Some (c # cs))) = Completed)"
proof -
  obtain out s where r: "buildTestApps h configTests app suites (Some (c # cs)) = (out, s)"
    by fastforce
  from buildTestApps_trace[OF r] buildTestApps_completes[of h configTests suites app "Some (c # cs)"]
  show ?thesis unfolding r by simp
qed

lemma example_known: "list_all (known_target example_config) example_targets"
  by (simp add: known_target_def example_targets_def example_config_def suite_of_def)

lemma example_plan:
  "plan example_host example_config ''demo'' example_targets ''8.0.0.GA'' =
     [(''appc'', [''ti'', ''sdk'', ''select'', ''8.0.0.GA'', ''--no-banner'', ''--no-services'']),
      (''appc'', [''ti'', ''clean'', ''--platforms'', ''android'', ''--project-dir'',
                  ''/repo/ui-tests/demo/login/demoapp'', ''--no-banner'', ''--no-services'']),
      (''appc'', [''run'', ''--platform'', ''android'', ''--project-dir'',
                  ''/repo/ui-tests/demo/login/demoapp'', ''--build-only'', ''--no-banner'', ''--no-services'']),
      (''appc'', [''ti'', ''clean'', ''--platforms'', ''android'', ''--project-dir'',
                  ''/repo/ui-tests/demo/signup/signupapp'', ''--no-banner'', ''--no-services'']),
      (''appc'', [''run'', ''--platform'', ''android'', ''--project-dir'',
                  ''/repo/ui-tests/demo/signup/signupapp'', ''--build-only'', ''--no-banner'', ''--no-services'']),
      (''appc'', [''ti'', ''clean'', ''--platforms'', ''ios'', ''--project-dir'',
                  ''/repo/ui-tests/demo/login/demoapp'', ''--no-banner'', ''--no-services'']),
      (''appc'', [''run'', ''--platform'', ''ios'', ''--project-dir'',
                  ''/repo/ui-tests/demo/login/demoapp'', ''--build-only'', ''--no-banner'', ''--no-services''])]"
  by (simp add: plan_def target_plan_def build_defs example_config_def example_host_simps
      posix_join_examples)

text \<open>
  The run of the example: the selection, then clean and build of the three targets in
  their order.
\<close>

theorem buildTestApps_steps_in_order_witness:
  "fst (buildTestApps example_host example_config ''demo'' example_targets (Some ''8.0.0.GA'')) = Completed \<and>
   spawns (trace (snd (buildTestApps example_host example_config ''demo'' example_targets (Some ''8.0.0.GA'')))) =
     [(''appc'', [''ti'', ''sdk'', ''select'', ''8.0.0.GA'', ''--no-banner'', ''--no-services'']),
      (''appc'', [''ti'', ''clean'', ''--platforms'', ''android'', ''--project-dir'',
                  ''/repo/ui-tests/demo/login/demoapp'', ''--no-banner'', ''--no-services'']),
      (''appc'', [''run'', ''--platform'', ''android'', ''--project-dir'',
                  ''/repo/ui-tests/demo/login/demoapp'', ''--build-only'', ''--no-banner'', ''--no-services'']),
      (''appc'', [''ti'', ''clean'', ''--platforms'', ''android'', ''--project-dir'',
                  ''/repo/ui-tests/demo/signup/signupapp'', ''--no-banner'', ''--no-services'']),
      (''appc'', [''run'', ''--platform'', ''android'', ''--project-dir'',
                  ''/repo/ui-tests/demo/signup/signupapp'', ''--build-only'', ''--no-banner'', ''--no-services'']),
      (''appc'', [''ti'', ''clean'', ''--platforms'', ''ios'', ''--project-dir'',
                  ''/repo/ui-tests/demo/login/demoapp'', ''--no-banner'', ''--no-services'']),
      (''appc'', [''run'', ''--platform'', ''ios'', ''--project-dir'',
                  ''/repo/ui-tests/demo/login/demoapp'', ''--build-only'', ''--no-banner'', ''--no-services''])] \<and>
   sequential (procs (trace (snd (buildTestApps example_host example_config ''demo'' example_targets (Some ''8.0.0.GA'')))))"
proof -
  have h: "(\<forall>k. proc_end example_host k \<noteq> NeverExits) \<and> (\<forall>file. change_error example_host file = None) \<and>
    list_all (known_target example_config) example_targets"
    using example_known by (simp add: example_host_simps)
  obtain out s where r: "buildTestApps example_host example_config ''demo'' example_targets (Some ''8.0.0.GA'') = (out, s)"
    by fastforce
  from buildTestApps_steps_in_order[of example_host example_config "''demo''" example_targets "CHR ''8''" "''.0.0.GA''"] h
  show ?thesis unfolding r by (simp add: example_plan)
qed


section \<open>Exit codes\<close>

lemma recode_fields:
  "win32 (recode f h) = win32 h" "dirname (recode f h) = dirname h"
  "path_join (recode f h) = path_join h" "change_error (recode f h) = change_error h"
  "stat_ok (recode f h) = stat_ok h"
  "proc_end (recode f h) k = (case proc_end h k of Exits code \<Rightarrow> Exits (f k code) | NeverExits \<Rightarrow> NeverExits)"
  by (simp_all add: recode_def)

lemma appc_command_recode: "appc_command (recode f h) flags = appc_command h flags"
  by (simp add: appc_command_def spawnConvert_def recode_fields)

lemma project_dir_recode: "project_dir (recode f h) app t p = project_dir h app t p"
  by (simp add: project_dir_def getAbsolutePath_def recode_fields)

lemma appc_recode:
  assumes "same_but_codes s s'"
  shows "fst (appc (recode f h) flags s') = fst (appc h flags s) \<and>
         same_but_codes (snd (appc h flags s)) (snd (appc (recode f h) flags s'))"
  using assms
  by (cases "proc_end h (spawned s)")
     (simp_all add: appc_result appc_command_recode recode_fields same_but_codes_def)

lemma patch_step_recode:
  assumes "same_but_codes s s'"
  shows "fst (patch_step (recode f h) configTests app t s') = fst (patch_step h configTests app t s) \<and>
         same_but_codes (snd (patch_step h configTests app t s))
                        (snd (patch_step (recode f h) configTests app t s'))"
  using assms
  by (auto simp: patch_step_def Let_def project_dir_recode recode_fields same_but_codes_def
      tiappMod_get_def split: option.splits)

lemma chain_recode:
  "same_but_codes s s' \<Longrightarrow>
   fst (chain (recode f h) configTests app suites s') = fst (chain h configTests app suites s) \<and>
   same_but_codes (snd (chain h configTests app suites s))
                  (snd (chain (recode f h) configTests app suites s'))"
proof (induction suites arbitrary: s s')
  case Nil
  then show ?case by (simp add: same_but_codes_def)
next
  case (Cons t suites)
  obtain r s1 where ps: "patch_step h configTests app t s = (r, s1)" by fastforce
  obtain r' s1' where ps': "patch_step (recode f h) configTests app t s' = (r', s1')" by fastforce
  from patch_step_recode[OF Cons.prems, of f h configTests app t] ps ps'
  have r: "r' = r" and e1: "same_but_codes s1 s1'" by simp_all
  show ?case
  proof (cases r)
    case (Inl e)
    with ps ps' r e1 show ?thesis by simp
  next
    case (Inr dir)
    obtain b2 s2 where a1: "appc h (clean_flags t dir) s1 = (b2, s2)" by fastforce
    obtain b2' s2' where a1': "appc (recode f h) (clean_flags t dir) s1' = (b2', s2')" by fastforce
    from appc_recode[OF e1, of f h "clean_flags t dir"] a1 a1'
    have b2: "b2' = b2" and e2: "same_but_codes s2 s2'" by simp_all
    obtain b3 s3 where a2: "appc h (build_flags t dir) s2 = (b3, s3)" by fastforce
    obtain b3' s3' where a2': "appc (recode f h) (build_flags t dir) s2' = (b3', s3')" by fastforce
    from appc_recode[OF e2, of f h "build_flags t dir"] a2 a2'
    have b3: "b3' = b3" and e3: "same_but_codes s3 s3'" by simp_all
    show ?thesis
    proof (cases "b2 \<and> b3")
      case True
      with ps ps' r Inr a1 a1' b2 a2 a2' b3 Cons.IH[OF e3] show ?thesis by simp
    next
      case False
      with ps ps' r Inr a1 a1' b2 a2 a2' b3 e2 e3 show ?thesis by (cases b2; cases b3) simp_all
    qed
  qed
qed

text \<open>
  Claim C7. \<open>appc\<close> calls \<open>next\<close> exactly when the process exits, whatever its code: a
  run on a host whose processes exit with other codes ends in the same way, and its trace
  differs in the recorded codes only.
\<close>

theorem buildTestApps_ignores_exit_codes:
  "fst (buildTestApps (recode f h) configTests app suites tiSdk)
     = fst (buildTestApps h configTests app suites tiSdk) \<and>
   map erase_code (trace (snd (buildTestApps (recode f h) configTests app suites tiSdk)))
     = map erase_code (trace (snd (buildTestApps h configTests app suites tiSdk))) \<and>
   fst (appc h flags s) = (proc_end h (spawned s) \<noteq> NeverExits)"
proof -
  let ?s0 = "\<lparr>tiappMod = [], trace = [], spawned = 0\<rparr>"
  have a: "fst (appc h flags s) = (proc_end h (spawned s) \<noteq> NeverExits)"
    by (cases "proc_end h (spawned s)") (simp_all add: appc_result)
  have "fst (buildTestApps (recode f h) configTests app suites tiSdk)
     = fst (buildTestApps h configTests app suites tiSdk) \<and>
     same_but_codes (snd (buildTestApps h configTests app suites tiSdk))
       (snd (buildTestApps (recode f h) configTests app suites tiSdk))"
  proof (cases "truthy tiSdk")
    case False
    then show ?thesis by (simp add: buildTestApps_def same_but_codes_def)
  next
    case True
    have e0: "same_but_codes ?s0 ?s0" by (simp add: same_but_codes_def)
    obtain b s1 where a1: "appc h (select_flags (the tiSdk)) ?s0 = (b, s1)" by fastforce
    obtain b' s1' where a1': "appc (recode f h) (select_flags (the tiSdk)) ?s0 = (b', s1')" by fastforce
    from appc_recode[OF e0, of f h "select_flags (the tiSdk)"] a1 a1'
    have b: "b' = b" and e1: "same_but_codes s1 s1'" by simp_all
    show ?thesis
      using True a1 a1' b e1 chain_recode[OF e1, of f h configTests app suites]
      by (cases b) (simp_all add: buildTestApps_def)
  qed
  then show ?thesis using a by (simp add: same_but_codes_def)
qed

text \<open>The run of the example completes when every process exits with code 1.\<close>

theorem buildTestApps_ignores_exit_codes_witness:
  "fst (buildTestApps (recode (\<lambda>k code. 1) example_host) example_config ''demo'' example_targets
         (Some ''8.0.0.GA'')) = Completed \<and>
   proc_end (recode (\<lambda>k code. 1) example_host) 2 = Exits 1"
proof -
  have "fst (buildTestApps example_host example_config ''demo'' example_targets (Some ''8.0.0.GA'')) = Completed"
    by (rule buildTestApps_completes) (simp_all add: example_host_simps example_known)
  with buildTestApps_ignores_exit_codes[of "\<lambda>k code. 1" example_host example_config "''demo''"
      example_targets "Some ''8.0.0.GA''"]
  show ?thesis by (simp add: recode_fields example_host_simps)
qed

section \<open>Projects whose descriptor is not rewritten\<close>

text \<open>
  The key of the memo is the name of the project alone, while the descriptor lies in the
  directory of the suite: where two suites have equally named projects, the descriptor of
  the second is not rewritten, and its clean and build steps run on that directory.
\<close>

lemma posix_join_same_name:
  "posix_join [''signup'', ''demoapp''] = ''signup/demoapp''"
  "posix_join [''/repo/lib'', ''..'', ''ui-tests'', ''demo'', ''signup/demoapp'']
     = ''/repo/ui-tests/demo/signup/demoapp''"
  by (simp_all add: posix_join_def)

lemma buildTestApps_same_name_other_directory:
  "changes (trace (snd (buildTestApps example_host same_name_config ''demo'' example_targets
                          (Some ''8.0.0.GA''))))
     = [(''demoapp'', ''/repo/ui-tests/demo/login/demoapp/tiapp.xml'')]"
  "(''appc'', [''run'', ''--platform'', ''android'', ''--project-dir'',
              ''/repo/ui-tests/demo/signup/demoapp'', ''--build-only'', ''--no-banner'',
              ''--no-services''])
     \<in> set (spawns (trace (snd (buildTestApps example_host same_name_config ''demo''
                                     example_targets (Some ''8.0.0.GA'')))))"
  by (simp_all add: build_defs same_name_config_def example_host_simps posix_join_examples
      posix_join_same_name)

text \<open>
  Claim C2 (the code differs in one case). No run calls \<open>change\<close> twice under the same
  project key, whatever the targets are. With three targets of which two share a project,
  the example run rewrites two descriptors, as the claim says. But \<open>tiappMod\<close> is a plain
  object, and for a project whose name is a property of \<open>Object.prototype\<close> the test of
  line 276 finds the inherited value: with the shared project named \<open>constructor\<close> only
  the descriptor of the third target is rewritten, once instead of twice, in a run that
  completes.
\<close>

theorem buildTestApps_skips_inherited_name:
  "distinct (map fst (changes (trace (snd (buildTestApps h configTests app suites tiSdk))))) \<and>
   fst (buildTestApps example_host prototype_config ''demo'' example_targets (Some ''8.0.0.GA''))
     = Completed \<and>
   map (project_of prototype_config) example_targets
     = [Some ''constructor'', Some ''signupapp'', Some ''constructor''] \<and>
   changes (trace (snd (buildTestApps example_host prototype_config ''demo'' example_targets
                          (Some ''8.0.0.GA''))))
     = [(''signupapp'', ''/repo/ui-tests/demo/signup/signupapp/tiapp.xml'')] \<and>
   changes (trace (snd (buildTestApps example_host example_config ''demo'' example_targets
                          (Some ''8.0.0.GA''))))
     = [(''demoapp'', ''/repo/ui-tests/demo/login/demoapp/tiapp.xml''),
        (''signupapp'', ''/repo/ui-tests/demo/signup/signupapp/tiapp.xml'')]"
proof -
  have "map (project_of prototype_config) example_targets
     = [Some ''constructor'', Some ''signupapp'', Some ''constructor'']"
    by (simp add: project_of_def prototype_config_def example_targets_def suite_of_def example_suite_def)
  then show ?thesis
    using buildTestApps_changes_distinct run_prototype run_example by simp
qed


section \<open>The capability objects of the pairs\<close>

lemma add_devices:
  "dc < length st \<Longrightarrow>
   foldl (add_device t dc) (l, st) devs =
     (l @ map (\<lambda>i. \<lparr>suite = abs_file t, cap = i\<rparr>) [length st ..< length st + length devs],
      st @ map (new_desires (st ! dc)) devs)"
proof (induction devs arbitrary: l st)
  case Nil
  then show ?case by simp
next
  case (Cons d devs)
  let ?st = "st @ [new_desires (st ! dc) d]"
  have step: "add_device t dc (l, st) d = (l @ [\<lparr>suite = abs_file t, cap = length st\<rparr>], ?st)"
    by (simp add: add_device_def new_desires_def)
  have dc: "dc < length ?st" and same: "?st ! dc = st ! dc" using Cons.prems by (simp_all add: nth_append)
  have upt: "[length st ..< length st + length (d # devs)]
      = length st # [length ?st ..< length ?st + length devs]"
    by (simp add: upt_rec)
  show ?case
    unfolding foldl_Cons step Cons.IH[OF dc] same upt by simp
qed

lemma add_devices_frame:
  "length (snd (foldl (add_device t dc) (l, st) devs)) = length st + length devs \<and>
   (\<forall>a < length st. snd (foldl (add_device t dc) (l, st) devs) ! a = st ! a)"
proof (induction devs arbitrary: l st)
  case Nil
  then show ?case by simp
next
  case (Cons d devs)
  obtain l1 st1 where step: "add_device t dc (l, st) d = (l1, st1)" by fastforce
  then have st1: "st1 = st @ [(st ! dc)(''deviceName'' \<mapsto> deviceName d, ''platformVersion'' \<mapsto> platformVersion d)]"
    by (auto simp: add_device_def)
  from Cons.IH[of l1 st1] show ?case unfolding foldl_Cons step
    by (auto simp: st1 nth_append)
qed

lemma enrich_frame: "k \<notin> set enriched_keys \<Longrightarrow> enrich h app t sc ob k = ob k"
  by (simp add: enrich_def enriched_keys_def Let_def)

lemma create_for_frame:
  assumes "create_for h configTests app t (l, st) = (r, st')"
  shows "length st \<le> length st'"
    and "a < length st \<Longrightarrow> k \<notin> set enriched_keys \<Longrightarrow> (st' ! a) k = (st ! a) k"
proof -
  show "length st \<le> length st'"
    using assms add_devices_frame
    by (auto simp: create_for_def Let_def split: option.splits prod.splits)
       (metis length_list_update snd_conv le_add1)
  assume a: "a < length st" and k: "k \<notin> set enriched_keys"
  show "(st' ! a) k = (st ! a) k"
  proof (cases "suite_of configTests (platform t) (name t)")
    case None
    with assms show ?thesis by (simp add: create_for_def)
  next
    case (Some x)
    obtain pc sc where x: "x = (pc, sc)" by (cases x)
    let ?dc = "desiredCapabilities pc"
    let ?st1 = "st[?dc := enrich h app t sc (st ! ?dc)]"
    have "st' = snd (foldl (add_device t ?dc) (l, ?st1) (testDevices sc))"
      using assms Some x by (simp add: create_for_def Let_def split: prod.splits)
    then have "st' ! a = ?st1 ! a" using add_devices_frame[of t ?dc l ?st1 "testDevices sc"] a by simp
    then show ?thesis using a k by (cases "a = ?dc") (simp_all add: enrich_frame)
  qed
qed

lemma createTests_loop_frame:
  "createTests_loop h configTests app suites (l, st) = (r, st') \<Longrightarrow>
   length st \<le> length st' \<and>
   (\<forall>a < length st. \<forall>k. k \<notin> set enriched_keys \<longrightarrow> (st' ! a) k = (st ! a) k)"
proof (induction suites arbitrary: l st)
  case Nil
  then show ?case by simp
next
  case (Cons t suites)
  obtain r1 st1 where c: "create_for h configTests app t (l, st) = (r1, st1)" by fastforce
  note f = create_for_frame[OF c]
  show ?case
  proof (cases r1)
    case (Inl e)
    with c Cons.prems f show ?thesis by auto
  next
    case (Inr l1)
    with c Cons.prems have "createTests_loop h configTests app suites (l1, st1) = (r, st')" by simp
    from Cons.IH[OF this] f show ?thesis by (metis le_trans less_le_trans)
  qed
qed

lemma map_appended:
  "map (\<lambda>i. f ((ys @ xs) ! i)) [length ys ..< length ys + length xs] = map f xs"
  by (rule nth_equalityI) (auto simp: nth_append)

lemma suite_of_in_config:
  "suite_of configTests p n = Some (pc, sc) \<Longrightarrow> (p, pc) \<in> set configTests"
  by (auto simp: suite_of_def split: option.splits dest: map_of_SomeD)

lemma create_for_pairs:
  assumes known: "suite_of configTests (platform t) (name t) = Some (pc, sc)"
    and dc: "desiredCapabilities pc < n0" and n0: "n0 \<le> length st"
  shows "\<exists>new st'. create_for h configTests app t (l, st) = (Inr (l @ new), st') \<and>
           map (shown st') new =
             map (\<lambda>d. (abs_file t, Some (deviceName d), Some (platformVersion d))) (testDevices sc) \<and>
           map cap new = [length st ..< length st'] \<and> length st \<le> length st' \<and>
           (\<forall>a. n0 \<le> a \<and> a < length st \<longrightarrow> st' ! a = st ! a)"
proof -
  let ?dc = "desiredCapabilities pc"
  let ?st1 = "st[?dc := enrich h app t sc (st ! ?dc)]"
  let ?devs = "testDevices sc"
  let ?new = "map (\<lambda>i. \<lparr>suite = abs_file t, cap = i\<rparr>) [length st ..< length st + length ?devs]"
  let ?objs = "map (new_desires (?st1 ! ?dc)) ?devs"
  let ?st' = "?st1 @ ?objs"
  have dc1: "?dc < length ?st1" using dc n0 by simp
  have cf: "create_for h configTests app t (l, st) = (Inr (l @ ?new), ?st')"
    using known add_devices[OF dc1, of t l ?devs] by (simp add: create_for_def Let_def)
  have "map (shown ?st') ?new
      = map (\<lambda>i. (\<lambda>ob. (abs_file t, ob ''deviceName'', ob ''platformVersion'')) ((?st1 @ ?objs) ! i))
          [length ?st1 ..< length ?st1 + length ?objs]"
    by (simp add: shown_def comp_def)
  also have "\<dots> = map (\<lambda>ob. (abs_file t, ob ''deviceName'', ob ''platformVersion'')) ?objs"
    by (rule map_appended)
  also have "\<dots> = map (\<lambda>d. (abs_file t, Some (deviceName d), Some (platformVersion d))) ?devs"
    by (simp add: new_desires_def comp_def)
  finally have sh: "map (shown ?st') ?new =
      map (\<lambda>d. (abs_file t, Some (deviceName d), Some (platformVersion d))) ?devs" .
  have caps: "map cap ?new = [length st ..< length ?st']" by (simp add: comp_def)
  have frame: "\<forall>a. n0 \<le> a \<and> a < length st \<longrightarrow> ?st' ! a = st ! a"
    using dc by (auto simp: nth_append)
  show ?thesis using cf sh caps frame by (intro exI[of _ ?new] exI[of _ ?st']) simp
qed

lemma createTests_loop_pairs:
  "\<forall>(p, pc) \<in> set configTests. desiredCapabilities pc < n0 \<Longrightarrow> n0 \<le> length st \<Longrightarrow>
   list_all (known_target configTests) suites \<Longrightarrow>
   \<exists>new st'. createTests_loop h configTests app suites (l, st) = (Inr (l @ new), st') \<and>
     map (shown st') new = expected_pairs configTests suites \<and>
     map cap new = [length st ..< length st'] \<and> length st \<le> length st' \<and>
     (\<forall>a. n0 \<le> a \<and> a < length st \<longrightarrow> st' ! a = st ! a)"
proof (induction suites arbitrary: l st)
  case Nil
  then show ?case by (simp add: expected_pairs_def)
next
  case (Cons t suites)
  from Cons.prems(3) obtain pc sc where known: "suite_of configTests (platform t) (name t) = Some (pc, sc)"
    by (auto simp: known_target_def)
  from suite_of_in_config[OF known] Cons.prems(1) have dc: "desiredCapabilities pc < n0" by auto
  from create_for_pairs[OF known dc Cons.prems(2), of h app l]
  obtain new1 st1 where c1: "create_for h configTests app t (l, st) = (Inr (l @ new1), st1)"
    and sh1: "map (shown st1) new1 =
             map (\<lambda>d. (abs_file t, Some (deviceName d), Some (platformVersion d))) (testDevices sc)"
    and cap1: "map cap new1 = [length st ..< length st1]" and le1: "length st \<le> length st1"
    and fr1: "\<forall>a. n0 \<le> a \<and> a < length st \<longrightarrow> st1 ! a = st ! a"
    by blast
  have n1: "n0 \<le> length st1" using Cons.prems(2) le1 by simp
  from Cons.prems(3) have rest: "list_all (known_target configTests) suites" by simp
  from Cons.IH[OF Cons.prems(1) n1 rest, of "l @ new1"]
  obtain new2 st' where c2: "createTests_loop h configTests app suites (l @ new1, st1) = (Inr ((l @ new1) @ new2), st')"
    and sh2: "map (shown st') new2 = expected_pairs configTests suites"
    and cap2: "map cap new2 = [length st1 ..< length st']" and le2: "length st1 \<le> length st'"
    and fr2: "\<forall>a. n0 \<le> a \<and> a < length st1 \<longrightarrow> st' ! a = st1 ! a"
    by blast
  have "\<forall>x \<in> set new1. length st \<le> cap x \<and> cap x < length st1"
  proof
    fix x assume "x \<in> set new1"
    then have "cap x \<in> set (map cap new1)" by simp
    then show "length st \<le> cap x \<and> cap x < length st1" unfolding cap1 by simp
  qed
  then have "\<forall>x \<in> set new1. shown st' x = shown st1 x"
    using fr2 Cons.prems(2) by (auto simp: shown_def)
  then have sh1': "map (shown st') new1 = map (shown st1) new1" by simp
  have "createTests_loop h configTests app (t # suites) (l, st) = (Inr (l @ new1 @ new2), st')"
    using c1 c2 by simp
  moreover have "map (shown st') (new1 @ new2) = expected_pairs configTests (t # suites)"
    using sh1' sh1 sh2 known by (simp add: expected_pairs_def devices_of_def)
  moreover have "map cap (new1 @ new2) = [length st ..< length st']"
  proof -
    have "[length st ..< length st1 + (length st' - length st1)]
        = [length st ..< length st1] @ [length st1 ..< length st1 + (length st' - length st1)]"
      using le1 by (rule upt_add_eq_append)
    then show ?thesis using cap1 cap2 le2 by simp
  qed
  moreover have "length st \<le> length st'" using le1 le2 by simp
  moreover have "\<forall>a. n0 \<le> a \<and> a < length st \<longrightarrow> st' ! a = st ! a"
    using fr1 fr2 le1 by auto
  ultimately show ?case by blast
qed

lemma createTests_loop_known:
  "createTests_loop h configTests app suites acc = (Inr tests, st') \<Longrightarrow>
   list_all (known_target configTests) suites"
proof (induction suites arbitrary: acc)
  case Nil
  then show ?case by simp
next
  case (Cons t suites)
  obtain l st where acc: "acc = (l, st)" by (cases acc)
  show ?case
  proof (cases "suite_of configTests (platform t) (name t)")
    case None
    with Cons.prems acc show ?thesis by (simp add: create_for_def)
  next
    case (Some x)
    obtain r1 st1 where c: "create_for h configTests app t acc = (r1, st1)" by fastforce
    with Cons.prems obtain l1 where "r1 = Inr l1" by (cases r1) auto
    with c Cons.prems Cons.IH[of "(l1, st1)"] Some show ?thesis by (simp add: known_target_def)
  qed
qed

text \<open>
  Claim C9. Where the configuration refers to objects of the store and every target is a
  suite of the configuration, \<open>createTests\<close> returns, and its pairs are, in the order of
  the targets and of the devices of each target, one pair per device, with the suite file
  of the target and the name and version of the device. The capability objects of the
  pairs are pairwise different objects, allocated by the call (none is an object that
  existed before, so none is a base object). \<open>createTests\<close> returns only if every target
  is a suite of the configuration.
\<close>

theorem createTests_one_pair_per_device:
  "(valid_config configTests st \<and> list_all (known_target configTests) suites \<longrightarrow>
      (\<exists>tests. fst (createTests h configTests app suites st) = Inr tests \<and>
         map (shown (snd (createTests h configTests app suites st))) tests
           = expected_pairs configTests suites \<and>
         distinct (map cap tests) \<and>
         (\<forall>x \<in> set tests. length st \<le> cap x \<and>
                            cap x < length (snd (createTests h configTests app suites st))))) \<and>
   (fst (createTests h configTests app suites st) = Inr tests' \<longrightarrow>
      list_all (known_target configTests) suites)"
proof (intro conjI impI)
  assume a: "valid_config configTests st \<and> list_all (known_target configTests) suites"
  then have v: "\<forall>(p, pc) \<in> set configTests. desiredCapabilities pc < length st"
    by (auto simp: valid_config_def list_all_iff)
  from createTests_loop_pairs[OF v le_refl, of suites h app "[]"] a
  obtain new st' where r: "createTests_loop h configTests app suites ([], st) = (Inr new, st')"
    and sh: "map (shown st') new = expected_pairs configTests suites"
    and caps: "map cap new = [length st ..< length st']"
    by auto
  have "distinct (map cap new)" unfolding caps by simp
  moreover have "\<forall>x \<in> set new. length st \<le> cap x \<and> cap x < length st'"
  proof
    fix x assume "x \<in> set new"
    then have "cap x \<in> set (map cap new)" by simp
    then show "length st \<le> cap x \<and> cap x < length st'" unfolding caps by simp
  qed
  ultimately show "\<exists>tests. fst (createTests h configTests app suites st) = Inr tests \<and>
         map (shown (snd (createTests h configTests app suites st))) tests
           = expected_pairs configTests suites \<and>
         distinct (map cap tests) \<and>
         (\<forall>x \<in> set tests. length st \<le> cap x \<and>
                            cap x < length (snd (createTests h configTests app suites st)))"
    using r sh by (simp add: createTests_def)
next
  assume "fst (createTests h configTests app suites st) = Inr tests'"
  then show "list_all (known_target configTests) suites"
    using createTests_loop_known[of h configTests app suites "([], st)" tests']
    by (cases "createTests_loop h configTests app suites ([], st)") (simp add: createTests_def)
qed


section \<open>What the builder does to the base objects\<close>

lemma example_store_simps:
  "length example_store = 2"
  "example_store ! 0 = [''automationName'' \<mapsto> JStr ''Appium'']"
  "example_store ! Suc 0 = [''automationName'' \<mapsto> JStr ''XCUITest'']"
  by (simp_all add: example_store_def)

text \<open>
  Claim C8 as stated fails: the base capability object of the platform \<open>android\<close> has no
  \<open>platformName\<close> before the call and \<open>Android\<close> after it. Lines 353 to 382 assign to
  the properties of \<open>tests.desiredCapabilities\<close> itself.
\<close>

theorem createTests_base_mutated:
  "(example_store ! 0) ''platformName'' = None \<and>
   (snd (createTests example_host example_config ''demo'' example_targets example_store) ! 0)
      ''platformName'' = Some (JStr ''Android'') \<and>
   snd (createTests example_host example_config ''demo'' example_targets example_store) ! 0
     \<noteq> example_store ! 0"
proof -
  have a: "(example_store ! 0) ''platformName'' = None" by (simp add: example_store_def)
  have b: "(snd (createTests example_host example_config ''demo'' example_targets example_store) ! 0)
      ''platformName'' = Some (JStr ''Android'')"
    by (simp add: createTests_def create_for_def add_device_def enrich_def suite_of_def
        example_config_def example_targets_def example_suite_def example_store_def Let_def)
  from a b show ?thesis by auto
qed

text \<open>
  Claim C8, amended. \<open>createTests\<close> writes the keys \<open>platformName\<close>, \<open>app\<close>,
  \<open>appPackage\<close> and \<open>appActivity\<close> into the base capability object of a target's
  platform. Every other entry of every object that existed before the call, among them
  \<open>deviceName\<close> and \<open>platformVersion\<close> of the base objects, is after the call what it
  was before, and no object is removed: what is set per device goes to the fresh copies.
\<close>

theorem createTests_base_other_keys_kept:
  "a < length st \<and> k \<notin> set enriched_keys \<longrightarrow>
     (snd (createTests h configTests app suites st) ! a) k = (st ! a) k \<and>
     length st \<le> length (snd (createTests h configTests app suites st))"
proof
  assume a: "a < length st \<and> k \<notin> set enriched_keys"
  obtain r st' where r: "createTests_loop h configTests app suites ([], st) = (r, st')" by fastforce
  from createTests_loop_frame[OF r] a
  show "(snd (createTests h configTests app suites st) ! a) k = (st ! a) k \<and>
     length st \<le> length (snd (createTests h configTests app suites st))"
    by (simp add: createTests_def r)
qed

text \<open>The base object of \<open>android\<close> keeps its \<open>automationName\<close> and gets no \<open>deviceName\<close>.\<close>

theorem createTests_base_other_keys_kept_witness:
  "(snd (createTests example_host example_config ''demo'' example_targets example_store) ! 0)
      ''automationName'' = Some (JStr ''Appium'') \<and>
   (snd (createTests example_host example_config ''demo'' example_targets example_store) ! 0)
      ''deviceName'' = None"
  using createTests_base_other_keys_kept[of 0 example_store "''automationName''" example_host
      example_config "''demo''" example_targets]
    createTests_base_other_keys_kept[of 0 example_store "''deviceName''" example_host
      example_config "''demo''" example_targets]
  by (simp add: example_store_def enriched_keys_def)

lemma example_expected:
  "expected_pairs example_config example_targets =
     [(''/repo/ui-tests/demo/login/android.js'', Some (JStr ''Google Pixel''), Some (JStr ''9.0'')),
      (''/repo/ui-tests/demo/login/android.js'', Some (JStr ''Google Nexus 5''), Some (JStr ''6.0'')),
      (''/repo/ui-tests/demo/signup/android.js'', Some (JStr ''Google Pixel''), Some (JStr ''9.0'')),
      (''/repo/ui-tests/demo/login/ios.js'', Some (JStr ''iPhone 8''), Some (JStr ''12.4''))]"
  by (simp add: expected_pairs_def devices_of_def suite_of_def example_config_def
      example_targets_def example_suite_def pixel_def nexus_def iphone_def)

text \<open>The four pairs of the example: two devices, one device, one device.\<close>

theorem createTests_one_pair_per_device_witness:
  "\<exists>tests. fst (createTests example_host example_config ''demo'' example_targets example_store)
              = Inr tests \<and>
     map (shown (snd (createTests example_host example_config ''demo'' example_targets example_store)))
         tests =
       [(''/repo/ui-tests/demo/login/android.js'', Some (JStr ''Google Pixel''), Some (JStr ''9.0'')),
        (''/repo/ui-tests/demo/login/android.js'', Some (JStr ''Google Nexus 5''), Some (JStr ''6.0'')),
        (''/repo/ui-tests/demo/signup/android.js'', Some (JStr ''Google Pixel''), Some (JStr ''9.0'')),
        (''/repo/ui-tests/demo/login/ios.js'', Some (JStr ''iPhone 8''), Some (JStr ''12.4''))] \<and>
     distinct (map cap tests)"
proof -
  have v: "valid_config example_config example_store"
    by (simp add: valid_config_def example_config_def example_store_def)
  from createTests_one_pair_per_device[of example_config example_store example_targets
      example_host "''demo''"] v example_known
  show ?thesis by (auto simp: example_expected)
qed

end
